theory Spec2Isabelle
  imports
    Main
    "HOL-Library.AList"
    "HOL-Library.Char_ord"
    "HOL-Library.List_Lexorder"
    "HOL-Library.Product_Lexorder"
begin

section \<open>The kern feature writer of \<^verbatim>\<open>scripts/lib/fontbuild/kerning.py\<close>\<close>

text \<open>
  The module holds one class, \<^verbatim>\<open>KernFeatureWriter\<close>, with the methods
  \<^verbatim>\<open>write\<close>, \<^verbatim>\<open>_writeKerning\<close> and \<^verbatim>\<open>classDefinition\<close>. The writer's
  fields are mutated in place by the Python; here every method takes the writer and
  returns the updated one.

  Python dictionaries are association lists with the dictionary operations of
  the library theory \<^verbatim>\<open>AList\<close>: \<^verbatim>\<open>d[k] = v\<close> is \<^const>\<open>AList.update\<close> (an existing key
  is overwritten where it stands, a new key is added), lookup is \<^const>\<open>map_of\<close>.
  The iteration order of a dictionary never reaches the output: every dictionary
  that is rendered is sorted first.

  Glyph and class names are byte strings, ordered as Python 2 orders \<^verbatim>\<open>str\<close>:
  lexicographically by character code. Tuples are ordered lexicographically.
\<close>

subsection \<open>Data\<close>

type_synonym pair = "string \<times> string"

type_synonym kerning = "(pair \<times> int) list"

type_synonym classes = "(string \<times> string list) list"

datatype error = IndexError

record writer =
  kerning :: kerning
  leftClasses :: classes
  rightClasses :: classes
  classSizes :: "(string \<times> nat) list"
  ruleCount :: nat

text \<open>
  \<^verbatim>\<open>__init__\<close>: the store of the font, no classes, no sizes. The attribute
  \<^verbatim>\<open>ruleCount\<close> does not exist before \<^verbatim>\<open>write\<close> assigns it; the field starts at 0
  and is only read after that assignment. Sizes are results of \<^verbatim>\<open>len\<close> and the
  counter only grows by products of sizes, so both are natural numbers; the kerning
  values are integers.
\<close>

definition init :: "kerning \<Rightarrow> writer" where
  "init fontKerning =
     \<lparr>kerning = fontKerning, leftClasses = [], rightClasses = [], classSizes = [],
      ruleCount = 0\<rparr>"

subsection \<open>The kerning store of the font\<close>

text \<open>
  Modelled from the spec: the kerning object of the font is an external collaborator
  (RoboFab's \<^verbatim>\<open>RKerning\<close>), reached through \<^verbatim>\<open>kerning[pair]\<close>, \<^verbatim>\<open>remove\<close>,
  \<^verbatim>\<open>getLeft\<close>, \<^verbatim>\<open>getRight\<close> and \<^verbatim>\<open>items\<close>. The spec gives its interface:
  a mapping from (left, right) to a signed integer with point lookup returning the value
  or absent, removal of one pair, all pairs with a given left member, all pairs with a
  given right member. A store is a dictionary, so its keys are distinct.
\<close>

definition getitem :: "kerning \<Rightarrow> pair \<Rightarrow> int option" where
  "getitem K p = map_of K p"

definition remove :: "kerning \<Rightarrow> pair \<Rightarrow> kerning" where
  "remove K p = AList.delete p K"

definition getLeft :: "kerning \<Rightarrow> string \<Rightarrow> (pair \<times> int) list" where
  "getLeft K glyphName = filter (\<lambda>(k, v). fst k = glyphName) K"

definition getRight :: "kerning \<Rightarrow> string \<Rightarrow> (pair \<times> int) list" where
  "getRight K glyphName = filter (\<lambda>(k, v). snd k = glyphName) K"

subsection \<open>Strings\<close>

definition startswith :: "string \<Rightarrow> string \<Rightarrow> bool" where
  "startswith s p = (take (length p) s = p)"

definition endswith :: "string \<Rightarrow> string \<Rightarrow> bool" where
  "endswith s p = (length p \<le> length s \<and> drop (length s - length p) s = p)"

fun join :: "string \<Rightarrow> string list \<Rightarrow> string" where
  "join sep [] = []"
| "join sep [x] = x"
| "join sep (x # y # ys) = x @ sep @ join sep (y # ys)"

fun string_of_nat :: "nat \<Rightarrow> string" where
  "string_of_nat n =
     (if n < 10 then [''0123456789'' ! n]
      else string_of_nat (n div 10) @ [''0123456789'' ! (n mod 10)])"

declare string_of_nat.simps [simp del]

text \<open>The conversion \<^verbatim>\<open>%d\<close> of an integer.\<close>

definition format_d :: "int \<Rightarrow> string" where
  "format_d i = (if i < 0 then ''-'' @ string_of_nat (nat (- i)) else string_of_nat (nat i))"

subsection \<open>\<^verbatim>\<open>classDefinition\<close>\<close>

definition classDefinition :: "writer \<Rightarrow> string \<Rightarrow> string list \<Rightarrow> writer" where
  "classDefinition w name contents =
     (if \<not> startswith name ''@_'' then w
      else
        let info = (name, contents);
            w1 = (if endswith name ''_L'' then w\<lparr>leftClasses := leftClasses w @ [info]\<rparr>
                  else if endswith name ''_R'' then w\<lparr>rightClasses := rightClasses w @ [info]\<rparr>
                  else w)
        in w1\<lparr>classSizes := AList.update name (length contents) (classSizes w1)\<rparr>)"

subsection \<open>\<^verbatim>\<open>_writeKerning\<close>\<close>

text \<open>
  The method appends text lines to the list \<^verbatim>\<open>lines\<close>. The model appends the
  line as a value of \<open>line\<close> and renders it to the text with \<open>render\<close>, so that the
  rule behind a rendered line stays visible: \<open>Pos enum left right val\<close> is the line
  \<^verbatim>\<open>"    %spos %s %s %d;" % (enum, left, right, val)\<close>.
\<close>

datatype line = Subtable | Pos string string string int

fun render :: "line \<Rightarrow> string" where
  "render Subtable = ''    subtable;''"
| "render (Pos enum left right val) =
     ''    '' @ enum @ ''pos '' @ left @ '' '' @ right @ '' '' @ format_d val @ '';''"

text \<open>\<^verbatim>\<open>self.classSizes.get(name, 1)\<close>\<close>

definition size_of :: "(string \<times> nat) list \<Rightarrow> string \<Rightarrow> nat" where
  "size_of sizes name = (case map_of sizes name of None \<Rightarrow> 1 | Some n \<Rightarrow> n)"

text \<open>The value of \<^verbatim>\<open>rulesAdded\<close>; the marker \<^verbatim>\<open>enum\<close> is true when it is not empty.\<close>

definition rulesAdded :: "(string \<times> nat) list \<Rightarrow> string \<Rightarrow> string \<Rightarrow> string \<Rightarrow> nat" where
  "rulesAdded sizes enum left right =
     (if enum \<noteq> [] then size_of sizes left * size_of sizes right else 1)"

text \<open>The loop over the sorted pairs, from a value of \<^verbatim>\<open>self.ruleCount\<close>.\<close>

fun writeKerning_loop ::
  "(string \<times> nat) list \<Rightarrow> string \<Rightarrow> (pair \<times> int) list \<Rightarrow> nat \<Rightarrow> line list \<times> nat" where
  "writeKerning_loop sizes enum [] count = ([], count)"
| "writeKerning_loop sizes enum (((left, right), val) # pairs) count =
     (let added = rulesAdded sizes enum left right;
          count1 = count + added;
          (boundary, count2) = (if count1 > 2048 then ([Subtable], added) else ([], count1));
          (rest, count3) = writeKerning_loop sizes enum pairs count2
      in (boundary @ [Pos enum left right val] @ rest, count3))"

text \<open>The list \<^verbatim>\<open>lines\<close> of one call, and the counter after it.\<close>

definition writeKerning_lines ::
  "(string \<times> nat) list \<Rightarrow> kerning \<Rightarrow> bool \<Rightarrow> nat \<Rightarrow> line list \<times> nat" where
  "writeKerning_lines sizes kern enum count =
     writeKerning_loop sizes (if enum then ''enum '' else '''') (sort kern) count"

definition writeKerning ::
  "(string \<times> nat) list \<Rightarrow> kerning \<Rightarrow> string \<Rightarrow> bool \<Rightarrow> nat \<Rightarrow> string \<times> nat" where
  "writeKerning sizes kern linesep enum count =
     (let (lines, count') = writeKerning_lines sizes kern enum count
      in (join linesep (map render lines), count'))"

subsection \<open>\<^verbatim>\<open>write\<close>: classification\<close>

text \<open>
  The body of the inner loop over the right classes, for one left class and one right
  class: a rule with two classes. \<^verbatim>\<open>rightContents[0]\<close> raises
  \<^verbatim>\<open>IndexError\<close> on an empty class; \<^verbatim>\<open>continue\<close> leaves the store and the
  dictionary as they are.
\<close>

definition classPairStep ::
  "string \<Rightarrow> string \<Rightarrow> string \<times> string list \<Rightarrow> kerning \<Rightarrow> kerning \<Rightarrow>
     error + (kerning \<times> kerning)" where
  "classPairStep leftName leftKey rightClass K classPairKerning =
     (case rightClass of (rightName, rightContents) \<Rightarrow>
        (case rightContents of
           [] \<Rightarrow> Inl IndexError
         | rightKey # _ \<Rightarrow>
             (case getitem K (leftKey, rightKey) of
                None \<Rightarrow> Inr (K, classPairKerning)
              | Some kerningVal \<Rightarrow>
                  Inr (remove K (leftKey, rightKey),
                       AList.update (leftName, rightName) kerningVal classPairKerning))))"

fun collectClassPairs ::
  "string \<Rightarrow> string \<Rightarrow> classes \<Rightarrow> kerning \<Rightarrow> kerning \<Rightarrow> error + (kerning \<times> kerning)" where
  "collectClassPairs leftName leftKey [] K classPairKerning = Inr (K, classPairKerning)"
| "collectClassPairs leftName leftKey (rightClass # rs) K classPairKerning =
     (case classPairStep leftName leftKey rightClass K classPairKerning of
        Inl e \<Rightarrow> Inl e
      | Inr (K1, classPairKerning1) \<Rightarrow>
          collectClassPairs leftName leftKey rs K1 classPairKerning1)"

text \<open>The loop over \<^verbatim>\<open>self.kerning.getLeft(leftKey)\<close>: a left class and a right glyph.\<close>

fun collectLeftHits ::
  "string \<Rightarrow> (pair \<times> int) list \<Rightarrow> kerning \<Rightarrow> kerning \<Rightarrow> kerning \<times> kerning" where
  "collectLeftHits leftName [] K leftClassKerning = (K, leftClassKerning)"
| "collectLeftHits leftName ((pair, kerningVal) # hits) K leftClassKerning =
     collectLeftHits leftName hits
       (remove K pair) (AList.update (leftName, snd pair) kerningVal leftClassKerning)"

text \<open>The outer loop over the left classes.\<close>

fun collectLeftClasses ::
  "classes \<Rightarrow> classes \<Rightarrow> kerning \<Rightarrow> kerning \<Rightarrow> kerning \<Rightarrow>
     error + (kerning \<times> kerning \<times> kerning)" where
  "collectLeftClasses [] rights K leftClassKerning classPairKerning =
     Inr (K, leftClassKerning, classPairKerning)"
| "collectLeftClasses ((leftName, leftContents) # ls) rights K leftClassKerning classPairKerning =
     (case leftContents of
        [] \<Rightarrow> Inl IndexError
      | leftKey # _ \<Rightarrow>
          (case collectClassPairs leftName leftKey rights K classPairKerning of
             Inl e \<Rightarrow> Inl e
           | Inr (K1, classPairKerning1) \<Rightarrow>
               (let (K2, leftClassKerning1) =
                      collectLeftHits leftName (getLeft K1 leftKey) K1 leftClassKerning
                in collectLeftClasses ls rights K2 leftClassKerning1 classPairKerning1)))"

text \<open>The loop over \<^verbatim>\<open>self.kerning.getRight(rightKey)\<close>: a left glyph and a right class.\<close>

fun collectRightHits ::
  "string \<Rightarrow> (pair \<times> int) list \<Rightarrow> kerning \<Rightarrow> kerning \<Rightarrow> kerning \<times> kerning" where
  "collectRightHits rightName [] K rightClassKerning = (K, rightClassKerning)"
| "collectRightHits rightName ((pair, kerningVal) # hits) K rightClassKerning =
     collectRightHits rightName hits
       (remove K pair) (AList.update (fst pair, rightName) kerningVal rightClassKerning)"

fun collectRightClasses ::
  "classes \<Rightarrow> kerning \<Rightarrow> kerning \<Rightarrow> error + (kerning \<times> kerning)" where
  "collectRightClasses [] K rightClassKerning = Inr (K, rightClassKerning)"
| "collectRightClasses ((rightName, rightContents) # rs) K rightClassKerning =
     (case rightContents of
        [] \<Rightarrow> Inl IndexError
      | rightKey # _ \<Rightarrow>
          (let (K1, rightClassKerning1) =
                 collectRightHits rightName (getRight K rightKey) K rightClassKerning
           in collectRightClasses rs K1 rightClassKerning1))"

text \<open>
  The first half of \<^verbatim>\<open>write\<close>: the store after the three collecting loops, and the
  dictionaries \<^verbatim>\<open>leftClassKerning\<close>, \<^verbatim>\<open>rightClassKerning\<close>, \<^verbatim>\<open>classPairKerning\<close>.
  When \<^verbatim>\<open>IndexError\<close> is raised the Python leaves the store as the rounds before the
  error made it; the model returns the error alone.
\<close>

definition classify ::
  "classes \<Rightarrow> classes \<Rightarrow> kerning \<Rightarrow> error + (kerning \<times> kerning \<times> kerning \<times> kerning)" where
  "classify lefts rights K =
     (case collectLeftClasses lefts rights K [] [] of
        Inl e \<Rightarrow> Inl e
      | Inr (K1, leftClassKerning, classPairKerning) \<Rightarrow>
          (case collectRightClasses rights K1 [] of
             Inl e \<Rightarrow> Inl e
           | Inr (K2, rightClassKerning) \<Rightarrow>
               Inr (K2, leftClassKerning, rightClassKerning, classPairKerning)))"

subsection \<open>\<^verbatim>\<open>write\<close>: rendering\<close>

text \<open>
  The four lists \<^verbatim>\<open>lines\<close> of the four calls of \<^verbatim>\<open>_writeKerning\<close>, in the order
  of the calls, and the writer after them. The fourth call passes no \<^verbatim>\<open>enum\<close>
  argument, so the parameter takes its default, \<^verbatim>\<open>False\<close>.
\<close>

definition write_lines ::
  "writer \<Rightarrow> error + (line list \<times> line list \<times> line list \<times> line list \<times> writer)" where
  "write_lines w =
     (case classify (leftClasses w) (rightClasses w) (kerning w) of
        Inl e \<Rightarrow> Inl e
      | Inr (K, leftClassKerning, rightClassKerning, classPairKerning) \<Rightarrow>
          (let sizes = classSizes w;
               (g, c1) = writeKerning_lines sizes K False 0;
               (l, c2) = writeKerning_lines sizes leftClassKerning True c1;
               (r, c3) = writeKerning_lines sizes rightClassKerning True c2;
               (cp, c4) = writeKerning_lines sizes classPairKerning False c3
           in Inr (g, l, r, cp, w\<lparr>kerning := K, ruleCount := c4\<rparr>)))"

definition "write" :: "writer \<Rightarrow> string \<Rightarrow> error + (string \<times> writer)" where
  "write w linesep =
     (case write_lines w of
        Inl e \<Rightarrow> Inl e
      | Inr (g, l, r, cp, w') \<Rightarrow>
          Inr (join linesep
                 [''feature kern {'',
                  join linesep (map render g),
                  join linesep (map render l),
                  join linesep (map render r),
                  join linesep (map render cp),
                  ''} kern;''],
               w'))"

text \<open>
  Modelled from the spec: the parser of the feature text (\<^verbatim>\<open>feaTools\<close>) is an external
  collaborator; it calls \<^verbatim>\<open>classDefinition\<close> once for every class of the text, in
  source order. The classes it finds are a parameter here. \<^verbatim>\<open>makeKernFeature\<close> runs
  the parser on a new writer, writes the feature with the default line separator and
  appends it to the text of the font's features.
\<close>

definition parseFeatures :: "writer \<Rightarrow> classes \<Rightarrow> writer" where
  "parseFeatures w defs = fold (\<lambda>(name, contents) w'. classDefinition w' name contents) defs w"

definition makeKernFeature :: "kerning \<Rightarrow> classes \<Rightarrow> string \<Rightarrow> error + (string \<times> writer)" where
  "makeKernFeature fontKerning defs featuresText =
     (case write (parseFeatures (init fontKerning) defs) [CHR 0x0A] of
        Inl e \<Rightarrow> Inl e
      | Inr (text, w) \<Rightarrow> Inr (featuresText @ text, w))"

section \<open>Notions used to state the properties\<close>

subsection \<open>The rule counter, as the specification words it\<close>

text \<open>
  One pass over rules that carry their weight, with one counter: the weight is added; if
  the counter then exceeds 2048, a boundary line goes before the rule and the counter
  restarts at the weight of the rule.
\<close>

fun spec_counter :: "(nat \<times> line) list \<Rightarrow> nat \<Rightarrow> line list \<times> nat" where
  "spec_counter [] counter = ([], counter)"
| "spec_counter ((weight, rule) # rules) counter =
     (if counter + weight > 2048
      then (let (out, counter') = spec_counter rules weight
            in (Subtable # rule # out, counter'))
      else (let (out, counter') = spec_counter rules (counter + weight)
            in (rule # out, counter')))"

text \<open>The rules of a dictionary in rendering order, each with the weight the code gives it.\<close>

definition weighted :: "(string \<times> nat) list \<Rightarrow> string \<Rightarrow> kerning \<Rightarrow> (nat \<times> line) list" where
  "weighted sizes enum kern =
     map (\<lambda>((left, right), val). (rulesAdded sizes enum left right, Pos enum left right val))
       (sort kern)"

subsection \<open>Reading the output back\<close>

text \<open>The pairs and values of the rule lines, in order; boundary lines are skipped.\<close>

fun rule_pairs :: "line list \<Rightarrow> (pair \<times> int) list" where
  "rule_pairs [] = []"
| "rule_pairs (Subtable # ls) = rule_pairs ls"
| "rule_pairs (Pos enum left right val # ls) = ((left, right), val) # rule_pairs ls"

text \<open>A text line carries the marker when \<^verbatim>\<open>enum\<close> follows the indentation.\<close>

definition has_enum_marker :: "string \<Rightarrow> bool" where
  "has_enum_marker text = startswith text ''    enum ''"

text \<open>
  The output cut at the boundary lines: \<open>segments_from cur ls\<close> has the rules \<open>cur\<close>
  already read since the last boundary (or since the start).
\<close>

fun segments_from :: "line list \<Rightarrow> line list \<Rightarrow> line list list" where
  "segments_from cur [] = [cur]"
| "segments_from cur (Subtable # ls) = cur # segments_from [] ls"
| "segments_from cur (Pos enum left right val # ls) =
     segments_from (cur @ [Pos enum left right val]) ls"

definition segments :: "line list \<Rightarrow> line list list" where
  "segments ls = segments_from [] ls"

fun line_weight :: "(string \<times> nat) list \<Rightarrow> line \<Rightarrow> nat" where
  "line_weight sizes Subtable = 0"
| "line_weight sizes (Pos enum left right val) = rulesAdded sizes enum left right"

definition segment_weight :: "(string \<times> nat) list \<Rightarrow> line list \<Rightarrow> nat" where
  "segment_weight sizes seg = sum_list (map (line_weight sizes) seg)"

text \<open>
  A segment is within the limit when its weight is at most 2048, or when it is a single
  line.
\<close>

definition seg_ok :: "(string \<times> nat) list \<Rightarrow> line list \<Rightarrow> bool" where
  "seg_ok sizes seg = (segment_weight sizes seg \<le> 2048 \<or> length seg = 1)"

subsection \<open>Key glyphs\<close>

text \<open>The key glyph of every class of a list: the first glyph of its contents.\<close>

fun keyGlyphs :: "classes \<Rightarrow> string list" where
  "keyGlyphs [] = []"
| "keyGlyphs ((name, contents) # cs) = take 1 contents @ keyGlyphs cs"

subsection \<open>The rule that stands for a pair\<close>

text \<open>The key glyph recorded for a class name in a list of classes.\<close>

definition keyGlyph :: "classes \<Rightarrow> string \<Rightarrow> string option" where
  "keyGlyph cls name = (case map_of cls name of Some (key # _) \<Rightarrow> Some key | _ \<Rightarrow> None)"

text \<open>
  A rule \<open>e\<close> of the left-class bucket stands for the pair \<open>p\<close> of the store when its
  left identifier is a left class whose key glyph is the left glyph of \<open>p\<close>, and its
  right glyph and its value are those of \<open>p\<close>; likewise for the right-class bucket and
  for the class-pair bucket. A rule of the glyph bucket stands for the pair it is.
\<close>

definition from_left :: "classes \<Rightarrow> pair \<times> int \<Rightarrow> pair \<times> int \<Rightarrow> bool" where
  "from_left lefts p e =
     (keyGlyph lefts (fst (fst e)) = Some (fst (fst p)) \<and> snd (fst e) = snd (fst p) \<and>
      snd e = snd p)"

definition from_right :: "classes \<Rightarrow> pair \<times> int \<Rightarrow> pair \<times> int \<Rightarrow> bool" where
  "from_right rights p e =
     (fst (fst e) = fst (fst p) \<and> keyGlyph rights (snd (fst e)) = Some (snd (fst p)) \<and>
      snd e = snd p)"

definition from_classes :: "classes \<Rightarrow> classes \<Rightarrow> pair \<times> int \<Rightarrow> pair \<times> int \<Rightarrow> bool" where
  "from_classes lefts rights p e =
     (keyGlyph lefts (fst (fst e)) = Some (fst (fst p)) \<and>
      keyGlyph rights (snd (fst e)) = Some (snd (fst p)) \<and> snd e = snd p)"

text \<open>The number of rule lines of the four buckets that stand for the pair \<open>p\<close>.\<close>

definition times_emitted ::
  "classes \<Rightarrow> classes \<Rightarrow> line list \<Rightarrow> line list \<Rightarrow> line list \<Rightarrow> line list \<Rightarrow>
     pair \<times> int \<Rightarrow> nat" where
  "times_emitted lefts rights g l r cp p =
     length (filter (\<lambda>e. e = p) (rule_pairs g)) +
     length (filter (from_left lefts p) (rule_pairs l)) +
     length (filter (from_right rights p) (rule_pairs r)) +
     length (filter (from_classes lefts rights p) (rule_pairs cp))"

subsection \<open>Example writers\<close>

text \<open>
  The example of the specification: a left class keyed \<^verbatim>\<open>g1\<close>, a right class keyed
  \<^verbatim>\<open>g3\<close>, three pairs in the store.
\<close>

definition ex_spec :: writer where
  "ex_spec =
     parseFeatures
       (init [((''g1'', ''g3''), 10), ((''g2'', ''g3''), 20), ((''g4'', ''g5''), 5)])
       [(''@_A_L'', [''g1'', ''g2'']), (''@_B_R'', [''g3''])]"

text \<open>
  Two classes of 50 glyphs each, a pair of their key glyphs and a pair of plain glyphs.
\<close>

definition ex_fifty :: writer where
  "ex_fifty =
     parseFeatures
       (init [((''a1'', ''b1''), 10), ((''g4'', ''g5''), 5)])
       [(''@_A_L'', ''a1'' # replicate 49 ''a2''), (''@_B_R'', ''b1'' # replicate 49 ''b2'')]"

text \<open>A left class of 2049 glyphs and one pair that starts with its key glyph.\<close>

definition ex_big :: writer where
  "ex_big =
     parseFeatures (init [((''a1'', ''x''), 1)]) [(''@_A_L'', ''a1'' # replicate 2048 ''a2'')]"

text \<open>A left class whose key glyph starts no pair of the store.\<close>

definition ex_quiet :: writer where
  "ex_quiet = parseFeatures (init [((''g4'', ''g5''), 5)]) [(''@_A_L'', [''g1''])]"

text \<open>The feature text defines the left class \<^verbatim>\<open>@_A_L\<close> twice, with two key glyphs.\<close>

definition ex_dup :: writer where
  "ex_dup =
     parseFeatures (init [((''g1'', ''x''), 1), ((''g2'', ''x''), 2)])
       [(''@_A_L'', [''g1'']), (''@_A_L'', [''g2''])]"

section \<open>The rule counter\<close>

lemma writeKerning_text:
  "writeKerning sizes kern linesep enum c =
     (join linesep (map render (fst (writeKerning_lines sizes kern enum c))),
      snd (writeKerning_lines sizes kern enum c))"
  by (simp add: writeKerning_def case_prod_beta)

lemma loop_spec_counter:
  "writeKerning_loop sizes enum ps c =
     spec_counter (map (\<lambda>((a, b), v). (rulesAdded sizes enum a b, Pos enum a b v)) ps) c"
  by (induction ps arbitrary: c) (auto simp: Let_def split: prod.splits)

lemma spec_counter_append:
  "spec_counter (xs @ ys) c =
     (let (o1, c1) = spec_counter xs c; (o2, c2) = spec_counter ys c1 in (o1 @ o2, c2))"
  by (induction xs arbitrary: c) (auto split: prod.splits)

lemma lines_weighted:
  "writeKerning_lines sizes kern enum c =
     spec_counter (weighted sizes (if enum then ''enum '' else '''') kern) c"
  by (simp add: writeKerning_lines_def weighted_def loop_spec_counter)

lemma write_lines_Inr:
  assumes "classify (leftClasses w) (rightClasses w) (kerning w) = Inr (K, L, R, CP)"
    and "write_lines w = Inr (g, l, r, cp, w')"
  shows "\<exists>c1 c2 c3 c4.
      writeKerning_lines (classSizes w) K False 0 = (g, c1) \<and>
      writeKerning_lines (classSizes w) L True c1 = (l, c2) \<and>
      writeKerning_lines (classSizes w) R True c2 = (r, c3) \<and>
      writeKerning_lines (classSizes w) CP False c3 = (cp, c4) \<and>
      w' = w\<lparr>kerning := K, ruleCount := c4\<rparr>"
  using assms by (auto simp: write_lines_def Let_def split: prod.splits)

lemma write_lines_weighted:
  assumes "classify (leftClasses w) (rightClasses w) (kerning w) = Inr (K, L, R, CP)"
    and "write_lines w = Inr (g, l, r, cp, w')"
  shows "(g @ l @ r @ cp, ruleCount w') =
     spec_counter
       (weighted (classSizes w) '''' K @ weighted (classSizes w) ''enum '' L @
        weighted (classSizes w) ''enum '' R @ weighted (classSizes w) '''' CP) 0"
proof -
  from write_lines_Inr [OF assms] obtain c1 c2 c3 c4 where
    "writeKerning_lines (classSizes w) K False 0 = (g, c1)"
    "writeKerning_lines (classSizes w) L True c1 = (l, c2)"
    "writeKerning_lines (classSizes w) R True c2 = (r, c3)"
    "writeKerning_lines (classSizes w) CP False c3 = (cp, c4)"
    "w' = w\<lparr>kerning := K, ruleCount := c4\<rparr>"
    by blast
  then show ?thesis
    by (simp add: lines_weighted spec_counter_append)
qed

lemma ex_spec_classify:
  "classify (leftClasses ex_spec) (rightClasses ex_spec) (kerning ex_spec) =
     Inr ([((''g4'', ''g5''), 5)], [], [((''g2'', ''@_B_R''), 20)],
          [((''@_A_L'', ''@_B_R''), 10)])"
  by code_simp

lemma ex_spec_write_lines:
  "write_lines ex_spec =
     Inr ([Pos '''' ''g4'' ''g5'' 5], [], [Pos ''enum '' ''g2'' ''@_B_R'' 20],
          [Pos '''' ''@_A_L'' ''@_B_R'' 10],
          ex_spec\<lparr>kerning := [((''g4'', ''g5''), 5)], ruleCount := 3\<rparr>)"
  by code_simp

text \<open>
  C4. One rule counter runs through the four buckets of a call of \<^verbatim>\<open>write\<close>: the
  lines of the four buckets, one after the other, and the final counter are those of a
  single pass from 0 over all the rules, in which every rule first adds its weight, and
  a counter above 2048 puts a boundary line before the rule and restarts the counter at
  the weight of that rule; the boundary line adds nothing.
\<close>

theorem write_single_counter:
  assumes "classify (leftClasses w) (rightClasses w) (kerning w) = Inr (K, L, R, CP)"
    and "write_lines w = Inr (g, l, r, cp, w')"
  shows "(g @ l @ r @ cp, ruleCount w') =
     spec_counter
       (weighted (classSizes w) '''' K @ weighted (classSizes w) ''enum '' L @
        weighted (classSizes w) ''enum '' R @ weighted (classSizes w) '''' CP) 0"
  using assms by (rule write_lines_weighted)

theorem write_single_counter_witness:
  "spec_counter
     (weighted (classSizes ex_spec) '''' [((''g4'', ''g5''), 5)] @
      weighted (classSizes ex_spec) ''enum '' [] @
      weighted (classSizes ex_spec) ''enum '' [((''g2'', ''@_B_R''), 20)] @
      weighted (classSizes ex_spec) '''' [((''@_A_L'', ''@_B_R''), 10)]) 0 =
   ([Pos '''' ''g4'' ''g5'' 5, Pos ''enum '' ''g2'' ''@_B_R'' 20,
     Pos '''' ''@_A_L'' ''@_B_R'' 10], 3)"
  using write_single_counter [OF ex_spec_classify ex_spec_write_lines] by simp

section \<open>The weight of a rule\<close>

lemma write_lines_cases:
  assumes "write_lines w = Inr (g, l, r, cp, w')"
  obtains K L R CP where
    "classify (leftClasses w) (rightClasses w) (kerning w) = Inr (K, L, R, CP)"
  using assms by (auto simp: write_lines_def split: sum.splits)

lemma ex_fifty_classify:
  "classify (leftClasses ex_fifty) (rightClasses ex_fifty) (kerning ex_fifty) =
     Inr ([((''g4'', ''g5''), 5)], [], [], [((''@_A_L'', ''@_B_R''), 10)])"
  by (simp add: ex_fifty_def parseFeatures_def init_def classDefinition_def startswith_def
      endswith_def classify_def classPairStep_def getitem_def remove_def getLeft_def
      getRight_def)

lemma ex_fifty_write_lines:
  "write_lines ex_fifty =
     Inr ([Pos '''' ''g4'' ''g5'' 5], [], [], [Pos '''' ''@_A_L'' ''@_B_R'' 10],
          ex_fifty\<lparr>kerning := [((''g4'', ''g5''), 5)], ruleCount := 2\<rparr>)"
  by (simp add: write_lines_def ex_fifty_classify writeKerning_lines_def rulesAdded_def)

lemma ex_fifty_sizes:
  "classSizes ex_fifty = [(''@_A_L'', 50), (''@_B_R'', 50)]"
  by (simp add: ex_fifty_def parseFeatures_def init_def classDefinition_def startswith_def
      endswith_def)

text \<open>
  C3, as the claim states it, fails: the rule of the class pair of two classes of 50
  glyphs is written after one glyph rule; no boundary line precedes it and the counter
  goes from 1 to 2, although the product of the two sizes is 2500.
\<close>

theorem classpair_weight_counterexample:
  "write_lines ex_fifty =
     Inr ([Pos '''' ''g4'' ''g5'' 5], [], [], [Pos '''' ''@_A_L'' ''@_B_R'' 10],
          ex_fifty\<lparr>kerning := [((''g4'', ''g5''), 5)], ruleCount := 2\<rparr>) \<and>
   size_of (classSizes ex_fifty) ''@_A_L'' * size_of (classSizes ex_fifty) ''@_B_R'' = 2500"
  using ex_fifty_write_lines by (simp add: ex_fifty_sizes size_of_def)

text \<open>
  C3, amended. In the output of \<^verbatim>\<open>write\<close> a rule of the left-class or of the
  right-class bucket adds the product of the sizes of its two identifiers (1 for an
  identifier without a recorded size) to the counter, and a rule of the glyph bucket or
  of the class-pair bucket adds 1. A rule with the marker whose two sizes multiply to 2500
  gets a boundary line before it, whatever the counter was, and leaves the counter at
  2500.
\<close>

theorem class_rule_weights:
  assumes "classify (leftClasses w) (rightClasses w) (kerning w) = Inr (K, L, R, CP)"
    and "write_lines w = Inr (g, l, r, cp, w')"
  shows "(g @ l @ r @ cp, ruleCount w') =
     spec_counter
       (map (\<lambda>((a, b), v). (1, Pos '''' a b v)) (sort K) @
        map (\<lambda>((a, b), v).
               (size_of (classSizes w) a * size_of (classSizes w) b, Pos ''enum '' a b v))
          (sort L) @
        map (\<lambda>((a, b), v).
               (size_of (classSizes w) a * size_of (classSizes w) b, Pos ''enum '' a b v))
          (sort R) @
        map (\<lambda>((a, b), v). (1, Pos '''' a b v)) (sort CP)) 0 \<and>
     (\<forall>a b v ps c.
        size_of (classSizes w) a * size_of (classSizes w) b = 2500 \<longrightarrow>
        writeKerning_loop (classSizes w) ''enum '' (((a, b), v) # ps) c =
          (Subtable # Pos ''enum '' a b v #
             fst (writeKerning_loop (classSizes w) ''enum '' ps 2500),
           snd (writeKerning_loop (classSizes w) ''enum '' ps 2500)))"
proof -
  have "weighted (classSizes w) '''' kern = map (\<lambda>((a, b), v). (1, Pos '''' a b v)) (sort kern)"
    for kern
    by (simp add: weighted_def rulesAdded_def)
  moreover
  have "weighted (classSizes w) ''enum '' kern =
      map (\<lambda>((a, b), v).
             (size_of (classSizes w) a * size_of (classSizes w) b, Pos ''enum '' a b v))
        (sort kern)" for kern
    by (simp add: weighted_def rulesAdded_def)
  ultimately have "(g @ l @ r @ cp, ruleCount w') =
     spec_counter
       (map (\<lambda>((a, b), v). (1, Pos '''' a b v)) (sort K) @
        map (\<lambda>((a, b), v).
               (size_of (classSizes w) a * size_of (classSizes w) b, Pos ''enum '' a b v))
          (sort L) @
        map (\<lambda>((a, b), v).
               (size_of (classSizes w) a * size_of (classSizes w) b, Pos ''enum '' a b v))
          (sort R) @
        map (\<lambda>((a, b), v). (1, Pos '''' a b v)) (sort CP)) 0"
    using write_lines_weighted [OF assms] by simp
  moreover
  have "writeKerning_loop (classSizes w) ''enum '' (((a, b), v) # ps) c =
          (Subtable # Pos ''enum '' a b v #
             fst (writeKerning_loop (classSizes w) ''enum '' ps 2500),
           snd (writeKerning_loop (classSizes w) ''enum '' ps 2500))"
    if "size_of (classSizes w) a * size_of (classSizes w) b = 2500" for a b v ps c
    using that by (simp add: rulesAdded_def Let_def case_prod_beta)
  ultimately show ?thesis by blast
qed

theorem class_rule_weights_witness:
  "spec_counter
     [(1, Pos '''' ''g4'' ''g5'' 5), (1, Pos '''' ''@_A_L'' ''@_B_R'' 10)] 0 =
     ([Pos '''' ''g4'' ''g5'' 5, Pos '''' ''@_A_L'' ''@_B_R'' 10], 2) \<and>
   size_of (classSizes ex_fifty) ''@_A_L'' * size_of (classSizes ex_fifty) ''@_B_R'' = 2500 \<and>
   writeKerning_loop (classSizes ex_fifty) ''enum '' [((''@_A_L'', ''@_B_R''), 10)] 1 =
     ([Subtable, Pos ''enum '' ''@_A_L'' ''@_B_R'' 10], 2500)"
proof -
  have sz: "size_of (classSizes ex_fifty) ''@_A_L'' * size_of (classSizes ex_fifty) ''@_B_R'' = 2500"
    by (simp add: ex_fifty_sizes size_of_def)
  note inst = class_rule_weights [OF ex_fifty_classify ex_fifty_write_lines]
  from inst have "(([Pos '''' ''g4'' ''g5'' 5] @ [] @ [] @ [Pos '''' ''@_A_L'' ''@_B_R'' 10],
      ruleCount (ex_fifty\<lparr>kerning := [((''g4'', ''g5''), 5)], ruleCount := 2\<rparr>)) =
     spec_counter
       [(1, Pos '''' ''g4'' ''g5'' 5), (1, Pos '''' ''@_A_L'' ''@_B_R'' 10)] 0)"
    by simp
  moreover
  from inst sz have "writeKerning_loop (classSizes ex_fifty) ''enum '' [((''@_A_L'', ''@_B_R''), 10)] 1 =
     (Subtable # Pos ''enum '' ''@_A_L'' ''@_B_R'' 10 #
        fst (writeKerning_loop (classSizes ex_fifty) ''enum '' [] 2500),
      snd (writeKerning_loop (classSizes ex_fifty) ''enum '' [] 2500))"
    by blast
  ultimately show ?thesis using sz by simp
qed

section \<open>The marker of a rule\<close>

lemma loop_lines_marker:
  "ln \<in> set (fst (writeKerning_loop sizes enum ps c)) \<Longrightarrow>
     ln = Subtable \<or> (\<exists>a b v. ln = Pos enum a b v)"
  by (induction ps arbitrary: c) (auto simp: Let_def case_prod_beta split: if_splits)

lemma lines_marker:
  "writeKerning_lines sizes kern enum c = (ls, c') \<Longrightarrow> ln \<in> set ls \<Longrightarrow>
     ln = Subtable \<or> (\<exists>a b v. ln = Pos (if enum then ''enum '' else '''') a b v)"
  using loop_lines_marker [of ln sizes "if enum then ''enum '' else ''''" "sort kern" c]
  by (simp add: writeKerning_lines_def)

lemma has_enum_marker_render:
  "has_enum_marker (render (Pos ''enum '' a b v))"
  "\<not> has_enum_marker (render (Pos '''' a b v))"
  "\<not> has_enum_marker (render Subtable)"
  by (simp_all add: has_enum_marker_def startswith_def)

lemma marked_line:
  "ln = Subtable \<or> (\<exists>a b v. ln = Pos ''enum '' a b v) \<Longrightarrow> ln \<noteq> Subtable \<Longrightarrow>
     (\<exists>a b v. ln = Pos ''enum '' a b v) \<and> has_enum_marker (render ln)"
  using has_enum_marker_render(1) by blast

lemma unmarked_line:
  "ln = Subtable \<or> (\<exists>a b v. ln = Pos '''' a b v) \<Longrightarrow> ln \<noteq> Subtable \<Longrightarrow>
     (\<exists>a b v. ln = Pos '''' a b v) \<and> \<not> has_enum_marker (render ln)"
  using has_enum_marker_render(2) by blast

text \<open>
  C2, as the claim states it, fails: in the example of the specification the rule of the
  class-pair bucket is the text line \<^verbatim>\<open>    pos @_A_L @_B_R 10;\<close>, without the marker.
\<close>

theorem enum_marker_counterexample:
  "write_lines ex_spec =
     Inr ([Pos '''' ''g4'' ''g5'' 5], [], [Pos ''enum '' ''g2'' ''@_B_R'' 20],
          [Pos '''' ''@_A_L'' ''@_B_R'' 10],
          ex_spec\<lparr>kerning := [((''g4'', ''g5''), 5)], ruleCount := 3\<rparr>) \<and>
   render (Pos '''' ''@_A_L'' ''@_B_R'' 10) = ''    pos @_A_L @_B_R 10;'' \<and>
   \<not> has_enum_marker ''    pos @_A_L @_B_R 10;''"
  using ex_spec_write_lines
  by (simp add: has_enum_marker_def startswith_def format_d_def string_of_nat.simps)

text \<open>
  C2, amended. In the output of \<^verbatim>\<open>write\<close> every rule of the left-class bucket and
  of the right-class bucket carries the marker \<^verbatim>\<open>enum\<close>; the rules of the glyph
  bucket and of the class-pair bucket carry no marker.
\<close>

theorem write_enum_marker:
  assumes "write_lines w = Inr (g, l, r, cp, w')"
  shows "(\<forall>ln \<in> set l \<union> set r. ln \<noteq> Subtable \<longrightarrow>
            (\<exists>a b v. ln = Pos ''enum '' a b v) \<and> has_enum_marker (render ln)) \<and>
         (\<forall>ln \<in> set g \<union> set cp. ln \<noteq> Subtable \<longrightarrow>
            (\<exists>a b v. ln = Pos '''' a b v) \<and> \<not> has_enum_marker (render ln))"
proof -
  from assms obtain K L R CP where
    c: "classify (leftClasses w) (rightClasses w) (kerning w) = Inr (K, L, R, CP)"
    by (rule write_lines_cases)
  from write_lines_Inr [OF c assms] obtain c1 c2 c3 c4 where
    g: "writeKerning_lines (classSizes w) K False 0 = (g, c1)" and
    l: "writeKerning_lines (classSizes w) L True c1 = (l, c2)" and
    r: "writeKerning_lines (classSizes w) R True c2 = (r, c3)" and
    cp: "writeKerning_lines (classSizes w) CP False c3 = (cp, c4)"
    by blast
  have "ln = Subtable \<or> (\<exists>a b v. ln = Pos ''enum '' a b v)" if "ln \<in> set l \<union> set r" for ln
    using that lines_marker [OF l, of ln] lines_marker [OF r, of ln] by auto
  moreover
  have "ln = Subtable \<or> (\<exists>a b v. ln = Pos '''' a b v)" if "ln \<in> set g \<union> set cp" for ln
    using that lines_marker [OF g, of ln] lines_marker [OF cp, of ln] by auto
  ultimately show ?thesis
    using marked_line unmarked_line by blast
qed

theorem write_enum_marker_witness:
  "has_enum_marker (render (Pos ''enum '' ''g2'' ''@_B_R'' 20)) \<and>
   \<not> has_enum_marker (render (Pos '''' ''g4'' ''g5'' 5)) \<and>
   \<not> has_enum_marker (render (Pos '''' ''@_A_L'' ''@_B_R'' 10))"
  using write_enum_marker [OF ex_spec_write_lines] by simp

section \<open>The order of the output\<close>

lemma rule_pairs_append: "rule_pairs (xs @ ys) = rule_pairs xs @ rule_pairs ys"
  by (induction xs rule: rule_pairs.induct) auto

lemma rule_pairs_loop: "rule_pairs (fst (writeKerning_loop sizes enum ps c)) = ps"
  by (induction ps arbitrary: c) (auto simp: Let_def case_prod_beta rule_pairs_append)

lemma rule_pairs_lines:
  "writeKerning_lines sizes kern enum c = (ls, c') \<Longrightarrow> rule_pairs ls = sort kern"
  using rule_pairs_loop [of sizes "if enum then ''enum '' else ''''" "sort kern" c]
  by (simp add: writeKerning_lines_def)

lemma fst_mono_lex: "(x :: pair \<times> int) \<le> y \<Longrightarrow> fst x \<le> fst y"
  using less_eq_prod_def [of x y] by (metis less_imp_le)

lemma sorted_keys_sort: "sorted (map fst (sort (kern :: kerning)))"
proof -
  have "sorted_wrt (\<le>) (sort kern)" by simp
  then have "sorted_wrt (\<lambda>x y. fst x \<le> fst y) (sort kern)"
    by (rule sorted_wrt_mono_rel [rotated]) (rule fst_mono_lex)
  then show ?thesis by (simp add: sorted_map)
qed

text \<open>
  C6. The text returned by \<^verbatim>\<open>write\<close> is the header line, the renderings of the
  glyph bucket (the store left by the classification), of the left-class bucket, of the
  right-class bucket and of the class-pair bucket, in this order, and the footer line,
  joined by the line separator; the rules of each bucket are the entries of its
  dictionary in sorted order, so their (left, right) keys are sorted lexicographically.
\<close>

theorem write_bucket_order:
  assumes "classify (leftClasses w) (rightClasses w) (kerning w) = Inr (K, L, R, CP)"
    and "write_lines w = Inr (g, l, r, cp, w')"
  shows "write w linesep =
           Inr (join linesep
                  [''feature kern {'',
                   join linesep (map render g), join linesep (map render l),
                   join linesep (map render r), join linesep (map render cp),
                   ''} kern;''], w') \<and>
         rule_pairs g = sort K \<and> rule_pairs l = sort L \<and>
         rule_pairs r = sort R \<and> rule_pairs cp = sort CP \<and>
         sorted (map fst (rule_pairs g)) \<and> sorted (map fst (rule_pairs l)) \<and>
         sorted (map fst (rule_pairs r)) \<and> sorted (map fst (rule_pairs cp))"
proof -
  from write_lines_Inr [OF assms] obtain c1 c2 c3 c4 where
    g: "writeKerning_lines (classSizes w) K False 0 = (g, c1)" and
    l: "writeKerning_lines (classSizes w) L True c1 = (l, c2)" and
    r: "writeKerning_lines (classSizes w) R True c2 = (r, c3)" and
    cp: "writeKerning_lines (classSizes w) CP False c3 = (cp, c4)"
    by blast
  have "write w linesep =
           Inr (join linesep
                  [''feature kern {'',
                   join linesep (map render g), join linesep (map render l),
                   join linesep (map render r), join linesep (map render cp),
                   ''} kern;''], w')"
    using assms(2) by (simp add: write_def)
  then show ?thesis
    using rule_pairs_lines [OF g] rule_pairs_lines [OF l] rule_pairs_lines [OF r]
      rule_pairs_lines [OF cp]
    by (simp add: sorted_keys_sort)
qed

theorem write_bucket_order_witness:
  "write ex_spec ''\<newline>'' =
     Inr (''feature kern {\<newline>    pos g4 g5 5;\<newline>\<newline>    enum pos g2 @_B_R 20;\<newline>    pos @_A_L @_B_R 10;\<newline>} kern;'',
          ex_spec\<lparr>kerning := [((''g4'', ''g5''), 5)], ruleCount := 3\<rparr>) \<and>
   rule_pairs [Pos '''' ''@_A_L'' ''@_B_R'' 10] = sort [((''@_A_L'', ''@_B_R''), 10)] \<and>
   sorted (map fst (rule_pairs [Pos ''enum '' ''g2'' ''@_B_R'' 20]))"
  using write_bucket_order [OF ex_spec_classify ex_spec_write_lines, of "''\<newline>''"]
  by (simp add: format_d_def string_of_nat.simps)

section \<open>The weight between two boundaries\<close>

lemma segments_spec_counter:
  assumes "\<forall>(wt, ln) \<in> set rules. ln \<noteq> Subtable \<and> line_weight sizes ln = wt"
    and "segment_weight sizes cur = c" and "seg_ok sizes cur"
  shows "\<forall>seg \<in> set (segments_from cur (fst (spec_counter rules c))). seg_ok sizes seg"
  using assms
proof (induction rules arbitrary: cur c)
  case Nil
  then show ?case by simp
next
  case (Cons x rules)
  obtain wt ln where x: "x = (wt, ln)" by (cases x)
  with Cons.prems(1) obtain e a b v where
    ln: "ln = Pos e a b v" and wt: "line_weight sizes ln = wt"
    by (cases ln) auto
  have rest: "\<forall>(wt, ln) \<in> set rules. ln \<noteq> Subtable \<and> line_weight sizes ln = wt"
    using Cons.prems(1) by simp
  show ?case
  proof (cases "c + wt > 2048")
    case True
    have "\<forall>seg \<in> set (segments_from [ln] (fst (spec_counter rules wt))). seg_ok sizes seg"
      using Cons.IH [OF rest, of "[ln]" wt] wt by (simp add: segment_weight_def seg_ok_def)
    with True Cons.prems(3) show ?thesis
      by (simp add: x ln case_prod_beta)
  next
    case False
    have "\<forall>seg \<in> set (segments_from (cur @ [ln]) (fst (spec_counter rules (c + wt)))).
            seg_ok sizes seg"
      using Cons.IH [OF rest, of "cur @ [ln]" "c + wt"] wt False Cons.prems(2)
      by (simp add: segment_weight_def seg_ok_def)
    with False show ?thesis
      by (simp add: x ln case_prod_beta)
  qed
qed

lemma weighted_rules:
  "(wt, ln) \<in> set (weighted sizes enum kern) \<Longrightarrow>
     ln \<noteq> Subtable \<and> line_weight sizes ln = wt"
  by (auto simp: weighted_def)

lemma ex_big_write_lines:
  "write_lines ex_big =
     Inr ([], [Subtable, Pos ''enum '' ''@_A_L'' ''x'' 1], [], [],
          ex_big\<lparr>kerning := [], ruleCount := 2049\<rparr>)"
  by (simp add: ex_big_def parseFeatures_def init_def classDefinition_def startswith_def
      endswith_def write_lines_def classify_def classPairStep_def getitem_def remove_def
      getLeft_def getRight_def writeKerning_lines_def rulesAdded_def size_of_def)

lemma ex_big_sizes: "classSizes ex_big = [(''@_A_L'', 2049)]"
  by (simp add: ex_big_def parseFeatures_def init_def classDefinition_def startswith_def
      endswith_def)

text \<open>
  C5, as the claim states it, fails: a left class of 2049 glyphs gives a rule of weight
  2049, and the segment after the boundary line holds it.
\<close>

theorem segment_weight_counterexample:
  "write_lines ex_big =
     Inr ([], [Subtable, Pos ''enum '' ''@_A_L'' ''x'' 1], [], [],
          ex_big\<lparr>kerning := [], ruleCount := 2049\<rparr>) \<and>
   map (segment_weight (classSizes ex_big))
     (segments ([] @ [Subtable, Pos ''enum '' ''@_A_L'' ''x'' 1] @ [] @ [])) = [0, 2049]"
  using ex_big_write_lines
  by (simp add: segments_def segment_weight_def rulesAdded_def size_of_def ex_big_sizes)

text \<open>
  C5, amended. In the output of \<^verbatim>\<open>write\<close> the weight of the rules between two
  consecutive boundary lines (and before the first, and after the last) is at most 2048,
  except for a segment that is one single rule; such a rule may weigh more than 2048 by
  itself.
\<close>

theorem write_segment_weight:
  assumes "write_lines w = Inr (g, l, r, cp, w')"
  shows "\<forall>seg \<in> set (segments (g @ l @ r @ cp)).
           segment_weight (classSizes w) seg \<le> 2048 \<or> length seg = 1"
proof -
  from assms obtain K L R CP where
    c: "classify (leftClasses w) (rightClasses w) (kerning w) = Inr (K, L, R, CP)"
    by (rule write_lines_cases)
  let ?rules = "weighted (classSizes w) '''' K @ weighted (classSizes w) ''enum '' L @
        weighted (classSizes w) ''enum '' R @ weighted (classSizes w) '''' CP"
  have out: "g @ l @ r @ cp = fst (spec_counter ?rules 0)"
    using write_lines_weighted [OF c assms] by (metis fst_conv)
  have "\<forall>(wt, ln) \<in> set ?rules. ln \<noteq> Subtable \<and> line_weight (classSizes w) ln = wt"
    by (auto dest: weighted_rules)
  then have "\<forall>seg \<in> set (segments_from [] (fst (spec_counter ?rules 0))).
      seg_ok (classSizes w) seg"
    by (rule segments_spec_counter) (simp_all add: segment_weight_def seg_ok_def)
  then show ?thesis
    unfolding out segments_def seg_ok_def .
qed

theorem write_segment_weight_witness:
  "segments ([Pos '''' ''g4'' ''g5'' 5] @ [] @ [Pos ''enum '' ''g2'' ''@_B_R'' 20] @
     [Pos '''' ''@_A_L'' ''@_B_R'' 10]) =
     [[Pos '''' ''g4'' ''g5'' 5, Pos ''enum '' ''g2'' ''@_B_R'' 20,
       Pos '''' ''@_A_L'' ''@_B_R'' 10]] \<and>
   (segment_weight (classSizes ex_spec)
      [Pos '''' ''g4'' ''g5'' 5, Pos ''enum '' ''g2'' ''@_B_R'' 20,
       Pos '''' ''@_A_L'' ''@_B_R'' 10] \<le> 2048 \<or>
    length [Pos '''' ''g4'' ''g5'' 5, Pos ''enum '' ''g2'' ''@_B_R'' 20,
       Pos '''' ''@_A_L'' ''@_B_R'' 10] = 1)"
  using write_segment_weight [OF ex_spec_write_lines] by (simp add: segments_def)

section \<open>Class definitions\<close>

text \<open>
  C7. A call of \<^verbatim>\<open>classDefinition\<close> with a name that does not start with
  \<^verbatim>\<open>@_\<close> changes nothing. With a name that does, the size of the contents is
  recorded under the name; the class is appended to the left classes when the name ends
  with \<^verbatim>\<open>_L\<close>, to the right classes when it ends with \<^verbatim>\<open>_R\<close> and not with
  \<^verbatim>\<open>_L\<close>, and to neither list otherwise.
\<close>

theorem classDefinition_cases:
  "(\<not> startswith name ''@_'' \<longrightarrow> classDefinition w name contents = w) \<and>
   (startswith name ''@_'' \<longrightarrow>
      map_of (classSizes (classDefinition w name contents)) name = Some (length contents) \<and>
      kerning (classDefinition w name contents) = kerning w \<and>
      (endswith name ''_L'' \<longrightarrow>
         leftClasses (classDefinition w name contents) = leftClasses w @ [(name, contents)] \<and>
         rightClasses (classDefinition w name contents) = rightClasses w) \<and>
      (\<not> endswith name ''_L'' \<and> endswith name ''_R'' \<longrightarrow>
         leftClasses (classDefinition w name contents) = leftClasses w \<and>
         rightClasses (classDefinition w name contents) = rightClasses w @ [(name, contents)]) \<and>
      (\<not> endswith name ''_L'' \<and> \<not> endswith name ''_R'' \<longrightarrow>
         leftClasses (classDefinition w name contents) = leftClasses w \<and>
         rightClasses (classDefinition w name contents) = rightClasses w))"
  by (simp add: classDefinition_def Let_def AList.update_conv')

theorem classDefinition_cases_witness:
  "classDefinition (init []) ''kern1'' [''a''] = init [] \<and>
   leftClasses (classDefinition (init []) ''@_A_L'' [''g1'', ''g2'']) =
     [(''@_A_L'', [''g1'', ''g2''])] \<and>
   rightClasses (classDefinition (init []) ''@_A_L'' [''g1'', ''g2'']) = [] \<and>
   map_of (classSizes (classDefinition (init []) ''@_A_L'' [''g1'', ''g2''])) ''@_A_L'' = Some 2 \<and>
   rightClasses (classDefinition (init []) ''@_B_R'' [''g3'']) = [(''@_B_R'', [''g3''])] \<and>
   leftClasses (classDefinition (init []) ''@_B_R'' [''g3'']) = [] \<and>
   leftClasses (classDefinition (init []) ''@_X'' [''g6'']) = [] \<and>
   rightClasses (classDefinition (init []) ''@_X'' [''g6'']) = [] \<and>
   map_of (classSizes (classDefinition (init []) ''@_X'' [''g6''])) ''@_X'' = Some 1"
  using classDefinition_cases [of "''kern1''" "init []" "[''a'']"]
    classDefinition_cases [of "''@_A_L''" "init []" "[''g1'', ''g2'']"]
    classDefinition_cases [of "''@_B_R''" "init []" "[''g3'']"]
    classDefinition_cases [of "''@_X''" "init []" "[''g6'']"]
  by (simp add: startswith_def endswith_def init_def)

section \<open>The store after the classification\<close>

lemma remove_filter: "remove K p = filter (\<lambda>e. fst e \<noteq> p) K"
  by (auto simp: remove_def AList.delete_eq intro: filter_cong)

lemma collectLeftHits_store:
  "fst (collectLeftHits n hits K L) = filter (\<lambda>e. fst e \<notin> fst ` set hits) K"
  by (induction hits arbitrary: K L) (auto simp: remove_filter intro: filter_cong)

lemma collectRightHits_store:
  "fst (collectRightHits n hits K R) = filter (\<lambda>e. fst e \<notin> fst ` set hits) K"
  by (induction hits arbitrary: K R) (auto simp: remove_filter intro: filter_cong)

lemma filter_not_getLeft:
  "filter (\<lambda>e. fst e \<notin> fst ` set (getLeft K a)) K = filter (\<lambda>e. fst (fst e) \<noteq> a) K"
  by (rule filter_cong) (force simp: getLeft_def)+

lemma filter_not_getRight:
  "filter (\<lambda>e. fst e \<notin> fst ` set (getRight K b)) K = filter (\<lambda>e. snd (fst e) \<noteq> b) K"
  by (rule filter_cong) (force simp: getRight_def)+

lemma filter_left_remove:
  "filter (\<lambda>e. fst (fst e) \<noteq> a) (remove K (a, b)) = filter (\<lambda>e. fst (fst e) \<noteq> a) K"
  unfolding remove_filter filter_filter by (rule filter_cong) auto

lemma classPairStep_store:
  "classPairStep n a rc K CP = Inr (K1, CP1) \<Longrightarrow>
     filter (\<lambda>e. fst (fst e) \<noteq> a) K1 = filter (\<lambda>e. fst (fst e) \<noteq> a) K"
  by (auto simp: classPairStep_def filter_left_remove
      split: prod.splits list.splits option.splits)

lemma collectClassPairs_store:
  "collectClassPairs n a rs K CP = Inr (K1, CP1) \<Longrightarrow>
     filter (\<lambda>e. fst (fst e) \<noteq> a) K1 = filter (\<lambda>e. fst (fst e) \<noteq> a) K"
proof (induction rs arbitrary: K CP)
  case Nil
  then show ?case by simp
next
  case (Cons rc rs)
  from Cons.prems obtain K' CP' where
    step: "classPairStep n a rc K CP = Inr (K', CP')" and
    rest: "collectClassPairs n a rs K' CP' = Inr (K1, CP1)"
    by (auto split: sum.splits)
  from Cons.IH [OF rest] classPairStep_store [OF step] show ?case by simp
qed

lemma collectLeftClasses_store:
  "collectLeftClasses ls rs K L CP = Inr (K', L', CP') \<Longrightarrow>
     K' = filter (\<lambda>e. fst (fst e) \<notin> set (keyGlyphs ls)) K"
proof (induction ls arbitrary: K L CP)
  case Nil
  then show ?case by simp
next
  case (Cons lc ls)
  obtain n c where lc: "lc = (n, c)" by (cases lc)
  from Cons.prems lc obtain a as where c: "c = a # as"
    by (cases c) auto
  from Cons.prems lc c obtain K1 CP1 where
    pairs: "collectClassPairs n a rs K CP = Inr (K1, CP1)" and
    rest: "collectLeftClasses ls rs (fst (collectLeftHits n (getLeft K1 a) K1 L))
             (snd (collectLeftHits n (getLeft K1 a) K1 L)) CP1 = Inr (K', L', CP')"
    by (auto simp: case_prod_beta split: sum.splits)
  have "fst (collectLeftHits n (getLeft K1 a) K1 L) = filter (\<lambda>e. fst (fst e) \<noteq> a) K"
    using collectClassPairs_store [OF pairs]
    by (simp add: collectLeftHits_store filter_not_getLeft)
  with Cons.IH [OF rest] show ?case
    by (auto simp: lc c intro: filter_cong)
qed

lemma collectRightClasses_store:
  "collectRightClasses rs K R = Inr (K', R') \<Longrightarrow>
     K' = filter (\<lambda>e. snd (fst e) \<notin> set (keyGlyphs rs)) K"
proof (induction rs arbitrary: K R)
  case Nil
  then show ?case by simp
next
  case (Cons rc rs)
  obtain n c where rc: "rc = (n, c)" by (cases rc)
  from Cons.prems rc obtain b bs where c: "c = b # bs"
    by (cases c) auto
  from Cons.prems rc c have
    rest: "collectRightClasses rs (fst (collectRightHits n (getRight K b) K R))
             (snd (collectRightHits n (getRight K b) K R)) = Inr (K', R')"
    by (auto simp: case_prod_beta)
  have "fst (collectRightHits n (getRight K b) K R) = filter (\<lambda>e. snd (fst e) \<noteq> b) K"
    by (simp add: collectRightHits_store filter_not_getRight)
  with Cons.IH [OF rest] show ?case
    by (auto simp: rc c intro: filter_cong)
qed

lemma classify_store:
  assumes "classify ls rs K = Inr (G, L, R, CP)"
  shows "G = filter (\<lambda>e. fst (fst e) \<notin> set (keyGlyphs ls) \<and> snd (fst e) \<notin> set (keyGlyphs rs)) K"
proof -
  from assms obtain K1 where
    "collectLeftClasses ls rs K [] [] = Inr (K1, L, CP)" "collectRightClasses rs K1 [] = Inr (G, R)"
    by (auto simp: classify_def split: sum.splits)
  then show ?thesis
    using collectLeftClasses_store collectRightClasses_store by fastforce
qed




section \<open>A second call\<close>

lemma collectLeftClasses_nonempty:
  "collectLeftClasses ls rs K L CP = Inr x \<Longrightarrow> [] \<notin> snd ` set ls"
  by (induction ls arbitrary: K L CP)
    (auto simp: case_prod_beta split: list.splits sum.splits)

lemma collectRightClasses_nonempty:
  "collectRightClasses rs K R = Inr x \<Longrightarrow> [] \<notin> snd ` set rs"
  by (induction rs arbitrary: K R) (auto simp: case_prod_beta split: list.splits)

lemma getitem_absent: "\<forall>e \<in> set K. fst (fst e) \<noteq> a \<Longrightarrow> getitem K (a, b) = None"
  by (force simp: getitem_def map_of_eq_None_iff)

lemma getLeft_absent: "\<forall>e \<in> set K. fst (fst e) \<noteq> a \<Longrightarrow> getLeft K a = []"
  by (auto simp: getLeft_def filter_empty_conv)

lemma getRight_absent: "\<forall>e \<in> set K. snd (fst e) \<noteq> b \<Longrightarrow> getRight K b = []"
  by (auto simp: getRight_def filter_empty_conv)

lemma collectClassPairs_absent:
  "\<forall>e \<in> set K. fst (fst e) \<noteq> a \<Longrightarrow> [] \<notin> snd ` set rs \<Longrightarrow>
     collectClassPairs n a rs K CP = Inr (K, CP)"
  by (induction rs) (auto simp: classPairStep_def getitem_absent split: list.splits)

lemma collectLeftClasses_absent:
  "\<forall>e \<in> set K. fst (fst e) \<notin> set (keyGlyphs ls) \<Longrightarrow> [] \<notin> snd ` set ls \<Longrightarrow>
     [] \<notin> snd ` set rs \<Longrightarrow> collectLeftClasses ls rs K L CP = Inr (K, L, CP)"
  by (induction ls) (auto simp: collectClassPairs_absent getLeft_absent split: list.splits)

lemma collectRightClasses_absent:
  "\<forall>e \<in> set K. snd (fst e) \<notin> set (keyGlyphs rs) \<Longrightarrow> [] \<notin> snd ` set rs \<Longrightarrow>
     collectRightClasses rs K R = Inr (K, R)"
  by (induction rs) (auto simp: getRight_absent split: list.splits)

lemma classify_again:
  assumes "classify ls rs K = Inr (G, L, R, CP)"
  shows "classify ls rs G = Inr (G, [], [], [])"
proof -
  from assms obtain K1 where
    l: "collectLeftClasses ls rs K [] [] = Inr (K1, L, CP)" and
    r: "collectRightClasses rs K1 [] = Inr (G, R)"
    by (auto simp: classify_def split: sum.splits)
  have G: "G = filter (\<lambda>e. fst (fst e) \<notin> set (keyGlyphs ls) \<and>
      snd (fst e) \<notin> set (keyGlyphs rs)) K"
    using assms by (rule classify_store)
  have "collectLeftClasses ls rs G [] [] = Inr (G, [], [])"
    using collectLeftClasses_nonempty [OF l] collectRightClasses_nonempty [OF r]
    by (intro collectLeftClasses_absent) (simp_all add: G)
  moreover have "collectRightClasses rs G [] = Inr (G, [])"
    using collectRightClasses_nonempty [OF r]
    by (intro collectRightClasses_absent) (simp_all add: G)
  ultimately show ?thesis by (simp add: classify_def)
qed

lemma render_not_Nil: "render ln \<noteq> []"
  by (cases ln) simp_all

lemma join_render_Nil: "join sep (map render ls) = [] \<longleftrightarrow> ls = []"
proof (cases ls)
  case Nil
  then show ?thesis by simp
next
  case (Cons x xs)
  then show ?thesis by (cases xs) (simp_all add: render_not_Nil)
qed

text \<open>
  C9, as the claim states it, fails: when the classification consumes no pair, the second
  call returns the text of the first, and the writer after it is the writer before it.
\<close>

theorem write_twice_counterexample:
  "write ex_quiet ''\<newline>'' =
     Inr (''feature kern {\<newline>    pos g4 g5 5;\<newline>\<newline>\<newline>\<newline>} kern;'',
          ex_quiet\<lparr>kerning := [((''g4'', ''g5''), 5)], ruleCount := 1\<rparr>) \<and>
   write (ex_quiet\<lparr>kerning := [((''g4'', ''g5''), 5)], ruleCount := 1\<rparr>) ''\<newline>'' =
     Inr (''feature kern {\<newline>    pos g4 g5 5;\<newline>\<newline>\<newline>\<newline>} kern;'',
          ex_quiet\<lparr>kerning := [((''g4'', ''g5''), 5)], ruleCount := 1\<rparr>)"
  by code_simp

text \<open>
  C9, amended. A second call of \<^verbatim>\<open>write\<close> on the writer left by the first
  succeeds, leaves the store as it is and renders the same glyph bucket and three empty
  class buckets. Its text is the text of the first call without the lines of the three
  class buckets, so it differs from the first text exactly when the first call put a
  pair in a class bucket.
\<close>

theorem write_twice:
  assumes "write_lines w = Inr (g, l, r, cp, w1)"
  shows "\<exists>out1 out2 w2.
           write w linesep = Inr (out1, w1) \<and> write w1 linesep = Inr (out2, w2) \<and>
           write_lines w1 = Inr (g, [], [], [], w2) \<and> kerning w2 = kerning w1 \<and>
           length out1 =
             length out2 + length (join linesep (map render l)) +
             length (join linesep (map render r)) + length (join linesep (map render cp)) \<and>
           (out2 = out1 \<longleftrightarrow> l = [] \<and> r = [] \<and> cp = [])"
proof -
  from assms obtain K L R CP where
    c: "classify (leftClasses w) (rightClasses w) (kerning w) = Inr (K, L, R, CP)"
    by (rule write_lines_cases)
  from write_lines_Inr [OF c assms] obtain c1 c4 where
    g: "writeKerning_lines (classSizes w) K False 0 = (g, c1)" and
    w1: "w1 = w\<lparr>kerning := K, ruleCount := c4\<rparr>"
    by blast
  let ?w2 = "w1\<lparr>kerning := K, ruleCount := c1\<rparr>"
  let ?J = "\<lambda>ls. join linesep (map render ls)"
  let ?out1 = "join linesep [''feature kern {'', ?J g, ?J l, ?J r, ?J cp, ''} kern;'']"
  let ?out2 = "join linesep [''feature kern {'', ?J g, ?J [], ?J [], ?J [], ''} kern;'']"
  have lines2: "write_lines w1 = Inr (g, [], [], [], ?w2)"
    using classify_again [OF c] g
    by (simp add: write_lines_def w1 writeKerning_lines_def)
  have 1: "write w linesep = Inr (?out1, w1)"
    using assms by (simp add: write_def)
  have 2: "write w1 linesep = Inr (?out2, ?w2)"
    using lines2 by (simp add: write_def)
  have len: "length ?out1 = length ?out2 + length (?J l) + length (?J r) + length (?J cp)"
    by simp
  have "?out2 = ?out1 \<longleftrightarrow> ?J l = [] \<and> ?J r = [] \<and> ?J cp = []"
  proof
    assume "?out2 = ?out1"
    then have "length ?out2 = length ?out1" by (rule arg_cong)
    with len have "length (?J l) + length (?J r) + length (?J cp) = 0" by linarith
    then show "?J l = [] \<and> ?J r = [] \<and> ?J cp = []" by simp
  next
    assume "?J l = [] \<and> ?J r = [] \<and> ?J cp = []"
    then show "?out2 = ?out1" by simp
  qed
  then have eq: "?out2 = ?out1 \<longleftrightarrow> l = [] \<and> r = [] \<and> cp = []"
    by (simp only: join_render_Nil)
  have "kerning ?w2 = kerning w1" by (simp add: w1)
  with 1 2 lines2 len eq show ?thesis by blast
qed

theorem write_twice_witness:
  "\<exists>out1 out2 w2.
     write ex_spec ''\<newline>'' =
       Inr (out1, ex_spec\<lparr>kerning := [((''g4'', ''g5''), 5)], ruleCount := 3\<rparr>) \<and>
     write (ex_spec\<lparr>kerning := [((''g4'', ''g5''), 5)], ruleCount := 3\<rparr>) ''\<newline>'' =
       Inr (out2, w2) \<and>
     write_lines (ex_spec\<lparr>kerning := [((''g4'', ''g5''), 5)], ruleCount := 3\<rparr>) =
       Inr ([Pos '''' ''g4'' ''g5'' 5], [], [], [], w2) \<and>
     out2 \<noteq> out1"
proof -
  from write_twice [OF ex_spec_write_lines, of "''\<newline>''"] obtain out1 out2 w2 where
    1: "write ex_spec ''\<newline>'' =
       Inr (out1, ex_spec\<lparr>kerning := [((''g4'', ''g5''), 5)], ruleCount := 3\<rparr>)" and
    2: "write (ex_spec\<lparr>kerning := [((''g4'', ''g5''), 5)], ruleCount := 3\<rparr>) ''\<newline>'' =
       Inr (out2, w2)" and
    3: "write_lines (ex_spec\<lparr>kerning := [((''g4'', ''g5''), 5)], ruleCount := 3\<rparr>) =
       Inr ([Pos '''' ''g4'' ''g5'' 5], [], [], [], w2)" and
    4: "(out2 = out1) =
       (([]::line list) = [] \<and> [Pos ''enum '' ''g2'' ''@_B_R'' 20] = [] \<and>
        [Pos '''' ''@_A_L'' ''@_B_R'' 10] = [])"
    by blast
  from 4 have "out2 \<noteq> out1" by simp
  with 1 2 3 show ?thesis by blast
qed

section \<open>The lookup of a class pair\<close>

lemma collectClassPairs_total:
  "[] \<notin> snd ` set rs \<Longrightarrow> \<exists>K' CP'. collectClassPairs n a rs K CP = Inr (K', CP')"
  by (induction rs arbitrary: K CP)
    (auto simp: classPairStep_def split: list.splits option.splits)

lemma classPairStep_Inr:
  assumes "classPairStep n a (m, c) K CP = Inr (K', CP')"
  shows "\<exists>b bs. c = b # bs \<and>
     (getitem K (a, b) = None \<and> K' = K \<and> CP' = CP \<or>
      (\<exists>v. getitem K (a, b) = Some v \<and> K' = remove K (a, b) \<and>
         CP' = AList.update (n, m) v CP))"
proof (cases c)
  case Nil
  with assms show ?thesis by (simp add: classPairStep_def)
next
  case (Cons b bs)
  show ?thesis
  proof (cases "getitem K (a, b)")
    case None
    with assms Cons show ?thesis by (simp add: classPairStep_def)
  next
    case (Some v)
    with assms Cons show ?thesis by (simp add: classPairStep_def)
  qed
qed

lemma classPairStep_cases:
  assumes "classPairStep n a (m, c) K CP = Inr (K', CP')"
  obtains b bs where "c = b # bs" "getitem K (a, b) = None" "K' = K" "CP' = CP"
  | b bs v where "c = b # bs" "getitem K (a, b) = Some v" "K' = remove K (a, b)"
      "CP' = AList.update (n, m) v CP"
  using classPairStep_Inr [OF assms] by blast

lemma getitem_remove: "getitem (remove K k) k' = (if k' = k then None else getitem K k')"
  by (simp add: getitem_def remove_def AList.delete_conv')

lemma remove_absent: "getitem K k = None \<Longrightarrow> remove K k = K"
  by (simp add: getitem_def remove_def map_of_eq_None_iff)

lemma getitem_filter:
  "getitem (filter (\<lambda>e. P (fst e)) K) k = (if P k then getitem K k else None)"
  unfolding getitem_def by (induction K) auto

lemma classPairStep_remove:
  assumes "classPairStep n a (m, b # bs) K CP = Inr (K', CP')"
  shows "K' = remove K (a, b)"
  using assms by (rule classPairStep_cases) (simp_all add: remove_absent)

lemma collectClassPairs_filter:
  "collectClassPairs n a rs K CP = Inr (K1, CP1) \<Longrightarrow>
     K1 = filter (\<lambda>e. \<not> (fst (fst e) = a \<and> snd (fst e) \<in> set (keyGlyphs rs))) K"
proof (induction rs arbitrary: K CP)
  case Nil
  then show ?case by simp
next
  case (Cons rc rs)
  obtain m c where rc: "rc = (m, c)" by (cases rc)
  from Cons.prems rc obtain K' CP' where
    step: "classPairStep n a (m, c) K CP = Inr (K', CP')" and
    rest: "collectClassPairs n a rs K' CP' = Inr (K1, CP1)"
    by (auto split: sum.splits)
  from step obtain b bs where c: "c = b # bs"
    by (rule classPairStep_cases)
  have K': "K' = filter (\<lambda>e. fst e \<noteq> (a, b)) K"
    using classPairStep_remove [OF step [unfolded c]] by (simp add: remove_filter)
  have "filter (\<lambda>e. \<not> (fst (fst e) = a \<and> snd (fst e) \<in> set (keyGlyphs rs))) K' =
      filter (\<lambda>e. \<not> (fst (fst e) = a \<and> snd (fst e) \<in> set (keyGlyphs (rc # rs)))) K"
    unfolding K' filter_filter by (rule filter_cong) (auto simp: rc c prod_eq_iff)
  with Cons.IH [OF rest] show ?case by simp
qed

lemma collectClassPairs_sound:
  "collectClassPairs n a rs K CP = Inr (K1, CP1) \<Longrightarrow> map_of CP1 q \<noteq> map_of CP q \<Longrightarrow>
     \<exists>m b bs v. q = (n, m) \<and> (m, b # bs) \<in> set rs \<and> getitem K (a, b) = Some v \<and>
       map_of CP1 q = Some v"
proof (induction rs arbitrary: K CP)
  case Nil
  then show ?case by simp
next
  case (Cons rc rs)
  obtain m c where rc: "rc = (m, c)" by (cases rc)
  from Cons.prems(1) rc obtain K' CP' where
    step: "classPairStep n a (m, c) K CP = Inr (K', CP')" and
    rest: "collectClassPairs n a rs K' CP' = Inr (K1, CP1)"
    by (auto split: sum.splits)
  show ?case
  proof (cases "map_of CP1 q = map_of CP' q")
    case True
    with Cons.prems(2) have changed: "map_of CP' q \<noteq> map_of CP q" by simp
    from step show ?thesis
    proof (rule classPairStep_cases)
      fix b bs assume "CP' = CP"
      with changed show ?thesis by simp
    next
      fix b bs v
      assume c: "c = b # bs" and v: "getitem K (a, b) = Some v"
        and CP': "CP' = AList.update (n, m) v CP"
      from changed CP' have q: "q = (n, m)"
        by (auto simp: AList.update_conv' split: if_splits)
      with CP' True have "map_of CP1 q = Some v"
        by (simp add: AList.update_conv')
      with q c v rc show ?thesis by auto
    qed
  next
    case False
    from Cons.IH [OF rest False] obtain m' b' bs' v' where
      q: "q = (n, m')" and mem: "(m', b' # bs') \<in> set rs" and
      v': "getitem K' (a, b') = Some v'" and val: "map_of CP1 q = Some v'"
      by blast
    from step obtain b bs where c: "c = b # bs"
      by (rule classPairStep_cases)
    from classPairStep_remove [OF step [unfolded c]] v' have "getitem K (a, b') = Some v'"
      by (simp add: getitem_remove split: if_splits)
    with q mem val show ?thesis by auto
  qed
qed

lemma collectClassPairs_frame:
  "collectClassPairs n a rs K CP = Inr (K1, CP1) \<Longrightarrow> q \<notin> {n} \<times> fst ` set rs \<Longrightarrow>
     map_of CP1 q = map_of CP q"
  using collectClassPairs_sound [of n a rs K CP K1 CP1 q] by force

lemma collectClassPairs_complete:
  "collectClassPairs n a rs K CP = Inr (K1, CP1) \<Longrightarrow> distinct (map fst rs) \<Longrightarrow>
     b \<in> set (keyGlyphs rs) \<Longrightarrow> getitem K (a, b) = Some v \<Longrightarrow>
     \<exists>m bs. (m, b # bs) \<in> set rs \<and> map_of CP1 (n, m) = Some v"
proof (induction rs arbitrary: K CP)
  case Nil
  then show ?case by simp
next
  case (Cons rc rs)
  obtain m c where rc: "rc = (m, c)" by (cases rc)
  from Cons.prems(1) rc obtain K' CP' where
    step: "classPairStep n a (m, c) K CP = Inr (K', CP')" and
    rest: "collectClassPairs n a rs K' CP' = Inr (K1, CP1)"
    by (auto split: sum.splits)
  from step obtain b0 bs0 where c: "c = b0 # bs0"
    by (rule classPairStep_cases)
  have d: "distinct (map fst rs)" and m_new: "m \<notin> fst ` set rs"
    using Cons.prems(2) rc by simp_all
  show ?case
  proof (cases "b = b0")
    case True
    from step c True Cons.prems(4) have "CP' = AList.update (n, m) v CP"
      by (auto simp: classPairStep_def)
    then have "map_of CP' (n, m) = Some v"
      by (simp add: AList.update_conv')
    moreover have "map_of CP1 (n, m) = map_of CP' (n, m)"
      using rest m_new by (intro collectClassPairs_frame) auto
    ultimately show ?thesis using rc c True by auto
  next
    case False
    with Cons.prems(3) rc c have b: "b \<in> set (keyGlyphs rs)" by simp
    from classPairStep_remove [OF step [unfolded c]] False Cons.prems(4)
    have "getitem K' (a, b) = Some v"
      by (simp add: getitem_remove)
    from Cons.IH [OF rest d b this] show ?thesis by auto
  qed
qed

lemma collectClassPairs_skipped:
  assumes "collectClassPairs n a rs K CP = Inr (K1, CP1)" and "distinct (map fst rs)"
    and "(m, b # bs) \<in> set rs" and "getitem K (a, b) = None"
  shows "map_of CP1 (n, m) = map_of CP (n, m)"
proof (rule ccontr)
  assume "map_of CP1 (n, m) \<noteq> map_of CP (n, m)"
  from collectClassPairs_sound [OF assms(1) this] obtain b' bs' v where
    "(m, b' # bs') \<in> set rs" "getitem K (a, b') = Some v"
    by auto
  moreover from this(1) assms(2,3) have "b' # bs' = b # bs"
    by (meson eq_key_imp_eq_value)
  ultimately show False using assms(4) by simp
qed

lemma collectLeftClasses_step:
  assumes "collectLeftClasses ((n, c) # ls) rights K L CP = Inr (K', L', CP')"
  obtains a as K1 CP1 K2 L2 where "c = a # as"
    "collectClassPairs n a rights K CP = Inr (K1, CP1)"
    "K2 = filter (\<lambda>e. fst (fst e) \<noteq> a) K"
    "collectLeftClasses ls rights K2 L2 CP1 = Inr (K', L', CP')"
proof -
  from assms obtain a as where c: "c = a # as"
    by (cases c) auto
  from assms c obtain K1 CP1 where
    pairs: "collectClassPairs n a rights K CP = Inr (K1, CP1)" and
    rest: "collectLeftClasses ls rights (fst (collectLeftHits n (getLeft K1 a) K1 L))
             (snd (collectLeftHits n (getLeft K1 a) K1 L)) CP1 = Inr (K', L', CP')"
    by (auto simp: case_prod_beta split: sum.splits)
  have "fst (collectLeftHits n (getLeft K1 a) K1 L) = filter (\<lambda>e. fst (fst e) \<noteq> a) K"
    using collectClassPairs_store [OF pairs]
    by (simp add: collectLeftHits_store filter_not_getLeft)
  with c pairs rest that show ?thesis by blast
qed

lemma getitem_other_left:
  "getitem (filter (\<lambda>e. fst (fst e) \<noteq> a0) K) (a, b) = (if a \<noteq> a0 then getitem K (a, b) else None)"
  using getitem_filter [of "\<lambda>k. fst k \<noteq> a0" K "(a, b)"] by simp

lemma collectLeftClasses_cp_sound:
  "collectLeftClasses ls rights K L CP = Inr (K', L', CP') \<Longrightarrow> map_of CP' q \<noteq> map_of CP q \<Longrightarrow>
     \<exists>n a as m b bs v. q = (n, m) \<and> (n, a # as) \<in> set ls \<and> (m, b # bs) \<in> set rights \<and>
       getitem K (a, b) = Some v \<and> map_of CP' q = Some v"
proof (induction ls arbitrary: K L CP)
  case Nil
  then show ?case by simp
next
  case (Cons lc ls)
  obtain n c where lc: "lc = (n, c)" by (cases lc)
  from Cons.prems(1) [unfolded lc] obtain a as K1 CP1 K2 L2 where
    c: "c = a # as" and
    pairs: "collectClassPairs n a rights K CP = Inr (K1, CP1)" and
    K2: "K2 = filter (\<lambda>e. fst (fst e) \<noteq> a) K" and
    rest: "collectLeftClasses ls rights K2 L2 CP1 = Inr (K', L', CP')"
    by (rule collectLeftClasses_step)
  show ?case
  proof (cases "map_of CP' q = map_of CP1 q")
    case True
    with Cons.prems(2) have "map_of CP1 q \<noteq> map_of CP q" by simp
    from collectClassPairs_sound [OF pairs this] obtain m b bs v where
      "q = (n, m)" "(m, b # bs) \<in> set rights" "getitem K (a, b) = Some v"
      "map_of CP1 q = Some v"
      by blast
    with True lc c show ?thesis by auto
  next
    case False
    from Cons.IH [OF rest False] obtain n' a' as' m b bs v where
      q: "q = (n', m)" "(n', a' # as') \<in> set ls" "(m, b # bs) \<in> set rights" and
      v: "getitem K2 (a', b) = Some v" and val: "map_of CP' q = Some v"
      by blast
    from v have "getitem K (a', b) = Some v"
      by (simp add: K2 getitem_other_left split: if_splits)
    with q val show ?thesis by auto
  qed
qed

lemma collectLeftClasses_cp_frame:
  "collectLeftClasses ls rights K L CP = Inr (K', L', CP') \<Longrightarrow> fst q \<notin> fst ` set ls \<Longrightarrow>
     map_of CP' q = map_of CP q"
  using collectLeftClasses_cp_sound [of ls rights K L CP K' L' CP' q] by force

lemma collectLeftClasses_cp_complete:
  "collectLeftClasses ls rights K L CP = Inr (K', L', CP') \<Longrightarrow> distinct (map fst ls) \<Longrightarrow>
     distinct (map fst rights) \<Longrightarrow> a \<in> set (keyGlyphs ls) \<Longrightarrow> b \<in> set (keyGlyphs rights) \<Longrightarrow>
     getitem K (a, b) = Some v \<Longrightarrow>
     \<exists>n as m bs. (n, a # as) \<in> set ls \<and> (m, b # bs) \<in> set rights \<and>
       map_of CP' (n, m) = Some v"
proof (induction ls arbitrary: K L CP)
  case Nil
  then show ?case by simp
next
  case (Cons lc ls)
  obtain n c where lc: "lc = (n, c)" by (cases lc)
  from Cons.prems(1) [unfolded lc] obtain a0 as0 K1 CP1 K2 L2 where
    c: "c = a0 # as0" and
    pairs: "collectClassPairs n a0 rights K CP = Inr (K1, CP1)" and
    K2: "K2 = filter (\<lambda>e. fst (fst e) \<noteq> a0) K" and
    rest: "collectLeftClasses ls rights K2 L2 CP1 = Inr (K', L', CP')"
    by (rule collectLeftClasses_step)
  have d: "distinct (map fst ls)" and n_new: "n \<notin> fst ` set ls"
    using Cons.prems(2) lc by simp_all
  show ?case
  proof (cases "a = a0")
    case True
    from collectClassPairs_complete [OF pairs Cons.prems(3,5)] Cons.prems(6) True
    obtain m bs where m: "(m, b # bs) \<in> set rights" "map_of CP1 (n, m) = Some v"
      by blast
    have "map_of CP' (n, m) = map_of CP1 (n, m)"
      using rest n_new by (intro collectLeftClasses_cp_frame) auto
    with m lc c True show ?thesis by auto
  next
    case False
    with Cons.prems(4) lc c have a: "a \<in> set (keyGlyphs ls)" by simp
    from False Cons.prems(6) have "getitem K2 (a, b) = Some v"
      by (simp add: K2 getitem_other_left)
    from Cons.IH [OF rest d Cons.prems(3) a Cons.prems(5) this] show ?thesis by auto
  qed
qed

lemma classify_classPairs:
  assumes "classify lefts rights S = Inr (G, L, R, CP)"
  shows "(\<forall>a b. a \<in> set (keyGlyphs lefts) \<longrightarrow> getitem G (a, b) = None) \<and>
     (\<forall>q v. map_of CP q = Some v \<longrightarrow>
        (\<exists>n a as m b bs. q = (n, m) \<and> (n, a # as) \<in> set lefts \<and> (m, b # bs) \<in> set rights \<and>
           getitem S (a, b) = Some v)) \<and>
     (distinct (map fst lefts) \<and> distinct (map fst rights) \<longrightarrow>
        (\<forall>a b v. a \<in> set (keyGlyphs lefts) \<and> b \<in> set (keyGlyphs rights) \<and>
           getitem S (a, b) = Some v \<longrightarrow>
           (\<exists>n as m bs. (n, a # as) \<in> set lefts \<and> (m, b # bs) \<in> set rights \<and>
              map_of CP (n, m) = Some v)))"
proof -
  from assms obtain K1 where
    l: "collectLeftClasses lefts rights S [] [] = Inr (K1, L, CP)"
    by (auto simp: classify_def split: sum.splits)
  have G: "G = filter (\<lambda>e. fst (fst e) \<notin> set (keyGlyphs lefts) \<and>
      snd (fst e) \<notin> set (keyGlyphs rights)) S"
    using assms by (rule classify_store)
  have 1: "getitem G (a, b) = None" if "a \<in> set (keyGlyphs lefts)" for a b
    using that getitem_filter [of "\<lambda>k. fst k \<notin> set (keyGlyphs lefts) \<and>
      snd k \<notin> set (keyGlyphs rights)" S "(a, b)"]
    by (simp add: G)
  have 2: "\<exists>n a as m b bs. q = (n, m) \<and> (n, a # as) \<in> set lefts \<and> (m, b # bs) \<in> set rights \<and>
           getitem S (a, b) = Some v" if "map_of CP q = Some v" for q v
  proof -
    from that have "map_of CP q \<noteq> map_of [] q" by simp
    from collectLeftClasses_cp_sound [OF l this] that show ?thesis by auto
  qed
  have 3: "\<exists>n as m bs. (n, a # as) \<in> set lefts \<and> (m, b # bs) \<in> set rights \<and>
      map_of CP (n, m) = Some v"
    if "distinct (map fst lefts)" "distinct (map fst rights)"
      "a \<in> set (keyGlyphs lefts)" "b \<in> set (keyGlyphs rights)" "getitem S (a, b) = Some v"
    for a b v
    using collectLeftClasses_cp_complete [OF l that] .
  from 1 2 3 show ?thesis by blast
qed

lemma keyGlyphs_mem: "(m, b # bs) \<in> set rs \<Longrightarrow> b \<in> set (keyGlyphs rs)"
  by (induction rs) auto

lemma ex_spec_lists_classify:
  "classify [(''@_A_L'', [''g1'', ''g2''])] [(''@_B_R'', [''g3''])]
     [((''g1'', ''g3''), 10), ((''g2'', ''g3''), 20), ((''g4'', ''g5''), 5)] =
     Inr ([((''g4'', ''g5''), 5)], [], [((''g2'', ''@_B_R''), 20)],
          [((''@_A_L'', ''@_B_R''), 10)])"
  by code_simp

text \<open>
  C8. In the loop over the right classes of step 1a, for one left class: a round whose
  lookup finds a value records it under the pair of the two class names and removes the
  pair of key glyphs from the store, changing nothing else; a round whose lookup finds
  nothing leaves the store and the dictionary as they are; neither is an error. For the
  whole loop: it returns whenever every right class has a key glyph; the store after it
  is the store before it without the pairs of the left key glyph with a right key glyph;
  every entry it writes holds the value of such a pair that was in the store; and, with
  distinct right class names, a right class whose pair is absent gets no entry, while a
  pair that is present is recorded under a right class with that key glyph. For the
  whole classification: no pair that starts with a left key glyph stays in the store,
  every class-pair entry holds the value the store had for the two key glyphs, and, with
  distinct class names on each side, every pair of a left and a right key glyph that the
  store held is recorded.
\<close>

theorem classPair_lookup:
  "(\<forall>v. getitem K (leftKey, rightKey) = Some v \<longrightarrow>
      (\<exists>K' CP'.
         classPairStep leftName leftKey (rightName, rightKey # rest) K CP = Inr (K', CP') \<and>
         K' = remove K (leftKey, rightKey) \<and>
         getitem K' (leftKey, rightKey) = None \<and>
         (\<forall>p. p \<noteq> (leftKey, rightKey) \<longrightarrow> getitem K' p = getitem K p) \<and>
         map_of CP' (leftName, rightName) = Some v \<and>
         (\<forall>q. q \<noteq> (leftName, rightName) \<longrightarrow> map_of CP' q = map_of CP q))) \<and>
   (getitem K (leftKey, rightKey) = None \<longrightarrow>
      classPairStep leftName leftKey (rightName, rightKey # rest) K CP = Inr (K, CP)) \<and>
   ([] \<notin> snd ` set rs \<longrightarrow>
      (\<exists>K1 CP1. collectClassPairs leftName leftKey rs K CP = Inr (K1, CP1))) \<and>
   (\<forall>K1 CP1. collectClassPairs leftName leftKey rs K CP = Inr (K1, CP1) \<longrightarrow>
      K1 = filter (\<lambda>e. \<not> (fst (fst e) = leftKey \<and> snd (fst e) \<in> set (keyGlyphs rs))) K \<and>
      (\<forall>q. map_of CP1 q \<noteq> map_of CP q \<longrightarrow>
         (\<exists>m b bs v. q = (leftName, m) \<and> (m, b # bs) \<in> set rs \<and>
            getitem K (leftKey, b) = Some v \<and> map_of CP1 q = Some v)) \<and>
      (distinct (map fst rs) \<longrightarrow>
         (\<forall>m b bs. (m, b # bs) \<in> set rs \<longrightarrow>
            (getitem K (leftKey, b) = None \<longrightarrow>
               map_of CP1 (leftName, m) = map_of CP (leftName, m)) \<and>
            (\<forall>v. getitem K (leftKey, b) = Some v \<longrightarrow>
               (\<exists>m' bs'. (m', b # bs') \<in> set rs \<and> map_of CP1 (leftName, m') = Some v))))) \<and>
   (\<forall>G L R CPf. classify lefts rights S = Inr (G, L, R, CPf) \<longrightarrow>
      (\<forall>a b. a \<in> set (keyGlyphs lefts) \<longrightarrow> getitem G (a, b) = None) \<and>
      (\<forall>q v. map_of CPf q = Some v \<longrightarrow>
         (\<exists>n a as m b bs. q = (n, m) \<and> (n, a # as) \<in> set lefts \<and> (m, b # bs) \<in> set rights \<and>
            getitem S (a, b) = Some v)) \<and>
      (distinct (map fst lefts) \<and> distinct (map fst rights) \<longrightarrow>
         (\<forall>a b v. a \<in> set (keyGlyphs lefts) \<and> b \<in> set (keyGlyphs rights) \<and>
            getitem S (a, b) = Some v \<longrightarrow>
            (\<exists>n as m bs. (n, a # as) \<in> set lefts \<and> (m, b # bs) \<in> set rights \<and>
               map_of CPf (n, m) = Some v))))"
proof -
  have A: "\<forall>v. getitem K (leftKey, rightKey) = Some v \<longrightarrow>
      (\<exists>K' CP'.
         classPairStep leftName leftKey (rightName, rightKey # rest) K CP = Inr (K', CP') \<and>
         K' = remove K (leftKey, rightKey) \<and>
         getitem K' (leftKey, rightKey) = None \<and>
         (\<forall>p. p \<noteq> (leftKey, rightKey) \<longrightarrow> getitem K' p = getitem K p) \<and>
         map_of CP' (leftName, rightName) = Some v \<and>
         (\<forall>q. q \<noteq> (leftName, rightName) \<longrightarrow> map_of CP' q = map_of CP q))"
    by (auto simp: classPairStep_def getitem_def remove_def AList.delete_conv'
        AList.update_conv')
  have B: "getitem K (leftKey, rightKey) = None \<longrightarrow>
      classPairStep leftName leftKey (rightName, rightKey # rest) K CP = Inr (K, CP)"
    by (simp add: classPairStep_def)
  have C: "[] \<notin> snd ` set rs \<longrightarrow>
      (\<exists>K1 CP1. collectClassPairs leftName leftKey rs K CP = Inr (K1, CP1))"
    using collectClassPairs_total [of rs leftName leftKey K CP] by blast
  have D: "\<forall>K1 CP1. collectClassPairs leftName leftKey rs K CP = Inr (K1, CP1) \<longrightarrow>
      K1 = filter (\<lambda>e. \<not> (fst (fst e) = leftKey \<and> snd (fst e) \<in> set (keyGlyphs rs))) K \<and>
      (\<forall>q. map_of CP1 q \<noteq> map_of CP q \<longrightarrow>
         (\<exists>m b bs v. q = (leftName, m) \<and> (m, b # bs) \<in> set rs \<and>
            getitem K (leftKey, b) = Some v \<and> map_of CP1 q = Some v)) \<and>
      (distinct (map fst rs) \<longrightarrow>
         (\<forall>m b bs. (m, b # bs) \<in> set rs \<longrightarrow>
            (getitem K (leftKey, b) = None \<longrightarrow>
               map_of CP1 (leftName, m) = map_of CP (leftName, m)) \<and>
            (\<forall>v. getitem K (leftKey, b) = Some v \<longrightarrow>
               (\<exists>m' bs'. (m', b # bs') \<in> set rs \<and> map_of CP1 (leftName, m') = Some v))))"
  proof (intro allI impI)
    fix K1 CP1
    assume loop: "collectClassPairs leftName leftKey rs K CP = Inr (K1, CP1)"
    have 1: "K1 = filter (\<lambda>e. \<not> (fst (fst e) = leftKey \<and>
        snd (fst e) \<in> set (keyGlyphs rs))) K"
      using loop by (rule collectClassPairs_filter)
    have 2: "\<forall>q. map_of CP1 q \<noteq> map_of CP q \<longrightarrow>
         (\<exists>m b bs v. q = (leftName, m) \<and> (m, b # bs) \<in> set rs \<and>
            getitem K (leftKey, b) = Some v \<and> map_of CP1 q = Some v)"
      using collectClassPairs_sound [OF loop] by blast
    have 3: "distinct (map fst rs) \<longrightarrow>
         (\<forall>m b bs. (m, b # bs) \<in> set rs \<longrightarrow>
            (getitem K (leftKey, b) = None \<longrightarrow>
               map_of CP1 (leftName, m) = map_of CP (leftName, m)) \<and>
            (\<forall>v. getitem K (leftKey, b) = Some v \<longrightarrow>
               (\<exists>m' bs'. (m', b # bs') \<in> set rs \<and> map_of CP1 (leftName, m') = Some v)))"
      using collectClassPairs_skipped [OF loop] collectClassPairs_complete [OF loop]
        keyGlyphs_mem [of _ _ _ rs]
      by blast
    from 1 2 3 show "K1 = filter (\<lambda>e. \<not> (fst (fst e) = leftKey \<and>
        snd (fst e) \<in> set (keyGlyphs rs))) K \<and>
      (\<forall>q. map_of CP1 q \<noteq> map_of CP q \<longrightarrow>
         (\<exists>m b bs v. q = (leftName, m) \<and> (m, b # bs) \<in> set rs \<and>
            getitem K (leftKey, b) = Some v \<and> map_of CP1 q = Some v)) \<and>
      (distinct (map fst rs) \<longrightarrow>
         (\<forall>m b bs. (m, b # bs) \<in> set rs \<longrightarrow>
            (getitem K (leftKey, b) = None \<longrightarrow>
               map_of CP1 (leftName, m) = map_of CP (leftName, m)) \<and>
            (\<forall>v. getitem K (leftKey, b) = Some v \<longrightarrow>
               (\<exists>m' bs'. (m', b # bs') \<in> set rs \<and> map_of CP1 (leftName, m') = Some v))))"
      by (intro conjI)
  qed
  have E: "\<forall>G L R CPf. classify lefts rights S = Inr (G, L, R, CPf) \<longrightarrow>
      (\<forall>a b. a \<in> set (keyGlyphs lefts) \<longrightarrow> getitem G (a, b) = None) \<and>
      (\<forall>q v. map_of CPf q = Some v \<longrightarrow>
         (\<exists>n a as m b bs. q = (n, m) \<and> (n, a # as) \<in> set lefts \<and> (m, b # bs) \<in> set rights \<and>
            getitem S (a, b) = Some v)) \<and>
      (distinct (map fst lefts) \<and> distinct (map fst rights) \<longrightarrow>
         (\<forall>a b v. a \<in> set (keyGlyphs lefts) \<and> b \<in> set (keyGlyphs rights) \<and>
            getitem S (a, b) = Some v \<longrightarrow>
            (\<exists>n as m bs. (n, a # as) \<in> set lefts \<and> (m, b # bs) \<in> set rights \<and>
               map_of CPf (n, m) = Some v)))"
    by (intro allI impI) (rule classify_classPairs)
  from A B C D E show ?thesis by (intro conjI)
qed

theorem classPair_lookup_witness:
  "(\<exists>K' CP'.
      classPairStep ''@_A_L'' ''g1'' (''@_B_R'', [''g3''])
        [((''g1'', ''g3''), 10), ((''g2'', ''g3''), 20)] [] = Inr (K', CP') \<and>
      K' = [((''g2'', ''g3''), 20)] \<and> map_of CP' (''@_A_L'', ''@_B_R'') = Some 10) \<and>
   classPairStep ''@_A_L'' ''g1'' (''@_B_R'', [''g3'']) [((''g2'', ''g3''), 20)] [] =
     Inr ([((''g2'', ''g3''), 20)], []) \<and>
   (\<exists>K1 CP1.
      collectClassPairs ''@_A_L'' ''g1'' [(''@_B_R'', [''g3'']), (''@_C_R'', [''g9''])]
        [((''g1'', ''g3''), 10), ((''g2'', ''g3''), 20)] [] = Inr (K1, CP1) \<and>
      K1 = [((''g2'', ''g3''), 20)] \<and> map_of CP1 (''@_A_L'', ''@_B_R'') = Some 10 \<and>
      map_of CP1 (''@_A_L'', ''@_C_R'') = None) \<and>
   getitem [((''g4'', ''g5''), 5)] (''g1'', ''g3'') = None \<and>
   (\<exists>n as m bs. (n, ''g1'' # as) \<in> set [(''@_A_L'', [''g1'', ''g2''])] \<and>
      (m, ''g3'' # bs) \<in> set [(''@_B_R'', [''g3''])] \<and>
      map_of [((''@_A_L'', ''@_B_R''), 10)] (n, m) = Some (10::int))"
proof -
  let ?K = "[((''g1'', ''g3''), 10), ((''g2'', ''g3''), 20)] :: kerning"
  let ?rs = "[(''@_B_R'', [''g3'']), (''@_C_R'', [''g9''])] :: classes"
  let ?lefts = "[(''@_A_L'', [''g1'', ''g2''])] :: classes"
  let ?rights = "[(''@_B_R'', [''g3''])] :: classes"
  let ?S = "[((''g1'', ''g3''), 10), ((''g2'', ''g3''), 20), ((''g4'', ''g5''), 5)] :: kerning"
  note present = classPair_lookup [where K = ?K and leftKey = "''g1''" and rightKey = "''g3''"
      and leftName = "''@_A_L''" and rightName = "''@_B_R''" and rest = "[]" and CP = "[]"
      and rs = ?rs and lefts = ?lefts and rights = ?rights and S = ?S]
  note absent = classPair_lookup [where K = "[((''g2'', ''g3''), 20)]" and leftKey = "''g1''"
      and rightKey = "''g3''" and leftName = "''@_A_L''" and rightName = "''@_B_R''"
      and rest = "[]" and CP = "[]" and rs = ?rs and lefts = ?lefts and rights = ?rights
      and S = ?S]
  have some: "getitem ?K (''g1'', ''g3'') = Some 10"
    by (simp add: getitem_def)
  have none: "getitem [((''g2'', ''g3''), 20)] (''g1'', ''g3'') = None"
    by (simp add: getitem_def)
  have none9: "getitem ?K (''g1'', ''g9'') = None"
    by (simp add: getitem_def)
  have rm: "remove ?K (''g1'', ''g3'') = [((''g2'', ''g3''), 20)]"
    by (simp add: remove_def)
  from present [THEN conjunct1, rule_format, OF some] obtain K' CP' where
    "classPairStep ''@_A_L'' ''g1'' (''@_B_R'', [''g3'']) ?K [] = Inr (K', CP')"
    "K' = remove ?K (''g1'', ''g3'')" "map_of CP' (''@_A_L'', ''@_B_R'') = Some 10"
    by blast
  with rm have 1: "\<exists>K' CP'.
      classPairStep ''@_A_L'' ''g1'' (''@_B_R'', [''g3'']) ?K [] = Inr (K', CP') \<and>
      K' = [((''g2'', ''g3''), 20)] \<and> map_of CP' (''@_A_L'', ''@_B_R'') = Some 10"
    by simp
  note 2 = absent [THEN conjunct2, THEN conjunct1, rule_format, OF none]
  have ne: "[] \<notin> snd ` set ?rs" by simp
  have d: "distinct (map fst ?rs)" by simp
  from present [THEN conjunct2, THEN conjunct2, THEN conjunct1, rule_format, OF ne]
  obtain K1 CP1 where
    loop: "collectClassPairs ''@_A_L'' ''g1'' ?rs ?K [] = Inr (K1, CP1)"
    by blast
  note D = present [THEN conjunct2, THEN conjunct2, THEN conjunct2, THEN conjunct1,
      rule_format, OF loop]
  from D [THEN conjunct1] have K1: "K1 = [((''g2'', ''g3''), 20)]" by simp
  note rec = D [THEN conjunct2, THEN conjunct2, rule_format, OF d]
  have memB: "(''@_B_R'', ''g3'' # []) \<in> set ?rs" by simp
  have memC: "(''@_C_R'', ''g9'' # []) \<in> set ?rs" by simp
  from rec [OF memB, THEN conjunct2, rule_format, OF some] obtain m' bs' where
    "(m', ''g3'' # bs') \<in> set ?rs" "map_of CP1 (''@_A_L'', m') = Some 10"
    by blast
  then have B: "map_of CP1 (''@_A_L'', ''@_B_R'') = Some 10" by auto
  from rec [OF memC, THEN conjunct1, rule_format, OF none9]
  have C: "map_of CP1 (''@_A_L'', ''@_C_R'') = None" by simp
  from loop K1 B C have 3: "\<exists>K1 CP1.
      collectClassPairs ''@_A_L'' ''g1'' ?rs ?K [] = Inr (K1, CP1) \<and>
      K1 = [((''g2'', ''g3''), 20)] \<and> map_of CP1 (''@_A_L'', ''@_B_R'') = Some 10 \<and>
      map_of CP1 (''@_A_L'', ''@_C_R'') = None"
    by blast
  have kl: "''g1'' \<in> set (keyGlyphs ?lefts)" and kr: "''g3'' \<in> set (keyGlyphs ?rights)"
    by simp_all
  have dd: "distinct (map fst ?lefts) \<and> distinct (map fst ?rights)"
    by simp
  have sS: "getitem ?S (''g1'', ''g3'') = Some 10"
    by (simp add: getitem_def)
  note E = present [THEN conjunct2, THEN conjunct2, THEN conjunct2, THEN conjunct2,
      rule_format, OF ex_spec_lists_classify]
  note 4 = E [THEN conjunct1, rule_format, OF kl, of "''g3''"]
  from kl kr sS
  have "''g1'' \<in> set (keyGlyphs ?lefts) \<and> ''g3'' \<in> set (keyGlyphs ?rights) \<and>
      getitem ?S (''g1'', ''g3'') = Some 10"
    by (intro conjI)
  note 5 = E [THEN conjunct2, THEN conjunct2, rule_format, OF dd this]
  from 1 2 3 4 5 show ?thesis by (intro conjI)
qed

section \<open>Every pair once\<close>

lemma keyGlyph_in:
  "distinct (map fst cls) \<Longrightarrow> (n, a # as) \<in> set cls \<Longrightarrow> keyGlyph cls n = Some a"
  by (simp add: keyGlyph_def)

lemma present_remove:
  fixes p :: "pair \<times> int"
  assumes "distinct (map fst K)" and "getitem K k = Some v"
  shows "of_bool (p \<in> set (remove K k)) + of_bool (p = (k, v)) = (of_bool (p \<in> set K) :: nat)"
proof -
  from assms have in_K: "(k, v) \<in> set K"
    by (auto simp: getitem_def dest: map_of_SomeD)
  have mem: "p \<in> set (remove K k) \<longleftrightarrow> p \<in> set K \<and> fst p \<noteq> k"
    by (simp add: remove_filter)
  show ?thesis
  proof (cases "p = (k, v)")
    case True
    with in_K mem show ?thesis by simp
  next
    case False
    have "fst p \<noteq> k" if "p \<in> set K"
    proof
      assume "fst p = k"
      with that have "(k, snd p) \<in> set K" by (metis prod.collapse)
      with eq_key_imp_eq_value [OF assms(1) in_K] have "v = snd p" by blast
      with \<open>fst p = k\<close> False show False by (metis prod.collapse)
    qed
    with mem have "p \<in> set (remove K k) \<longleftrightarrow> p \<in> set K" by blast
    with False show ?thesis by simp
  qed
qed

lemma update_fresh: "k \<notin> fst ` set al \<Longrightarrow> AList.update k v al = al @ [(k, v)]"
  by (induction al) auto

lemma distinct_remove: "distinct (map fst K) \<Longrightarrow> distinct (map fst (remove K k))"
  by (simp add: remove_def AList.distinct_delete)

lemma count_distinct:
  "distinct xs \<Longrightarrow> length (filter (\<lambda>e. e = p) xs) = of_bool (p \<in> set xs)"
  by (induction xs) auto

lemma classPairStep_inv:
  assumes "distinct (map fst rights)" and "keyGlyph lefts n = Some a"
    and "distinct (map fst K)" and "(m, c) \<in> set rights" and "(n, m) \<notin> fst ` set CP"
    and "classPairStep n a (m, c) K CP = Inr (K1, CP1)"
  shows "distinct (map fst K1) \<and>
     of_bool (p \<in> set K1) + length (filter (from_classes lefts rights p) CP1) =
       of_bool (p \<in> set K) + length (filter (from_classes lefts rights p) CP) \<and>
     fst ` set CP1 \<subseteq> insert (n, m) (fst ` set CP)"
proof -
  from assms(6) obtain b bs where c: "c = b # bs"
    by (cases c) (auto simp: classPairStep_def)
  have kb: "keyGlyph rights m = Some b"
    using assms(1,4) c by (simp add: keyGlyph_in)
  show ?thesis
  proof (cases "getitem K (a, b)")
    case None
    with assms(6) c have "K1 = K" "CP1 = CP" by (auto simp: classPairStep_def)
    with assms(3) show ?thesis by auto
  next
    case (Some v)
    with assms(6) c have K1: "K1 = remove K (a, b)" and
      CP1: "CP1 = AList.update (n, m) v CP" by (auto simp: classPairStep_def)
    have CP1': "CP1 = CP @ [((n, m), v)]"
      using assms(5) by (simp add: CP1 update_fresh)
    have "from_classes lefts rights p ((n, m), v) \<longleftrightarrow> p = ((a, b), v)"
      using assms(2) kb by (auto simp: from_classes_def)
    then have "length (filter (from_classes lefts rights p) CP1) =
        length (filter (from_classes lefts rights p) CP) + of_bool (p = ((a, b), v))"
      by (simp add: CP1')
    moreover note present_remove [OF assms(3) Some, of p]
    ultimately show ?thesis
      using assms(3) by (auto simp: K1 CP1' distinct_remove)
  qed
qed

lemma collectClassPairs_inv:
  assumes "distinct (map fst rights)" and "keyGlyph lefts n = Some a"
  shows "distinct (map fst K) \<Longrightarrow> distinct (map fst rs) \<Longrightarrow> set rs \<subseteq> set rights \<Longrightarrow>
     \<forall>m \<in> fst ` set rs. (n, m) \<notin> fst ` set CP \<Longrightarrow>
     collectClassPairs n a rs K CP = Inr (K1, CP1) \<Longrightarrow>
     distinct (map fst K1) \<and>
     of_bool (p \<in> set K1) + length (filter (from_classes lefts rights p) CP1) =
       of_bool (p \<in> set K) + length (filter (from_classes lefts rights p) CP) \<and>
     fst ` fst ` set CP1 \<subseteq> insert n (fst ` fst ` set CP)"
proof (induction rs arbitrary: K CP)
  case Nil
  then show ?case by auto
next
  case (Cons rc rs)
  obtain m c where rc: "rc = (m, c)" by (cases rc)
  from Cons.prems(5) obtain K' CP' where
    step: "classPairStep n a (m, c) K CP = Inr (K', CP')" and
    rest: "collectClassPairs n a rs K' CP' = Inr (K1, CP1)"
    by (auto simp: rc split: sum.splits)
  have in_rights: "(m, c) \<in> set rights"
    using Cons.prems(3) rc by simp
  have fresh: "(n, m) \<notin> fst ` set CP"
    using Cons.prems(4) rc by simp
  note s = classPairStep_inv [OF assms Cons.prems(1) in_rights fresh step, of p]
  have m_new: "m \<notin> fst ` set rs"
    using Cons.prems(2) rc by simp
  have fresh': "\<forall>m' \<in> fst ` set rs. (n, m') \<notin> fst ` set CP'"
  proof
    fix m' assume m': "m' \<in> fst ` set rs"
    with m_new have "m' \<noteq> m" by blast
    moreover from Cons.prems(4) m' have "(n, m') \<notin> fst ` set CP" by auto
    ultimately show "(n, m') \<notin> fst ` set CP'" using s by blast
  qed
  have d: "distinct (map fst rs)" using Cons.prems(2) by simp
  have sub: "set rs \<subseteq> set rights" using Cons.prems(3) by simp
  note r = Cons.IH [OF _ d sub fresh' rest]
  from s have dK': "distinct (map fst K')" by simp
  from s have names: "fst ` fst ` set CP' \<subseteq> insert n (fst ` fst ` set CP)"
    by force
  from r [OF dK'] have r1: "distinct (map fst K1)" and
    r2: "of_bool (p \<in> set K1) + length (filter (from_classes lefts rights p) CP1) =
       of_bool (p \<in> set K') + length (filter (from_classes lefts rights p) CP')" and
    r3: "fst ` fst ` set CP1 \<subseteq> insert n (fst ` fst ` set CP')"
    by blast+
  from s have s2: "of_bool (p \<in> set K') + length (filter (from_classes lefts rights p) CP') =
       of_bool (p \<in> set K) + length (filter (from_classes lefts rights p) CP)"
    by blast
  from r3 names have "fst ` fst ` set CP1 \<subseteq> insert n (fst ` fst ` set CP)"
    by blast
  with r1 r2 s2 show ?case by simp
qed

lemma collectLeftHits_closed:
  "distinct (map (\<lambda>x. snd (fst x)) hits) \<Longrightarrow> \<forall>e \<in> set hits. (n, snd (fst e)) \<notin> fst ` set L \<Longrightarrow>
     collectLeftHits n hits K L =
       (filter (\<lambda>e. fst e \<notin> fst ` set hits) K,
        L @ map (\<lambda>e. ((n, snd (fst e)), snd e)) hits)"
proof (induction hits arbitrary: K L)
  case Nil
  then show ?case by simp
next
  case (Cons h hits)
  obtain pair v where h: "h = (pair, v)" by (cases h)
  have upd: "AList.update (n, snd pair) v L = L @ [((n, snd pair), v)]"
    using Cons.prems(2) h by (simp add: update_fresh)
  have d: "distinct (map (\<lambda>x. snd (fst x)) hits)" using Cons.prems(1) by simp
  have fresh: "\<forall>e \<in> set hits. (n, snd (fst e)) \<notin> fst ` set (L @ [((n, snd pair), v)])"
  proof
    fix e assume e: "e \<in> set hits"
    with Cons.prems(1) h have "snd (fst e) \<noteq> snd pair" by force
    moreover from Cons.prems(2) e have "(n, snd (fst e)) \<notin> fst ` set L" by simp
    ultimately show "(n, snd (fst e)) \<notin> fst ` set (L @ [((n, snd pair), v)])" by auto
  qed
  have "filter (\<lambda>e. fst e \<notin> fst ` set hits) (remove K pair) =
      filter (\<lambda>e. fst e \<notin> fst ` set (h # hits)) K"
    unfolding remove_filter filter_filter by (rule filter_cong) (auto simp: h)
  with Cons.IH [OF d fresh, of "remove K pair"] show ?case
    by (simp add: h upd)
qed

lemma collectRightHits_closed:
  "distinct (map (\<lambda>x. fst (fst x)) hits) \<Longrightarrow> \<forall>e \<in> set hits. (fst (fst e), n) \<notin> fst ` set R \<Longrightarrow>
     collectRightHits n hits K R =
       (filter (\<lambda>e. fst e \<notin> fst ` set hits) K,
        R @ map (\<lambda>e. ((fst (fst e), n), snd e)) hits)"
proof (induction hits arbitrary: K R)
  case Nil
  then show ?case by simp
next
  case (Cons h hits)
  obtain pair v where h: "h = (pair, v)" by (cases h)
  have upd: "AList.update (fst pair, n) v R = R @ [((fst pair, n), v)]"
    using Cons.prems(2) h by (simp add: update_fresh)
  have d: "distinct (map (\<lambda>x. fst (fst x)) hits)" using Cons.prems(1) by simp
  have fresh: "\<forall>e \<in> set hits. (fst (fst e), n) \<notin> fst ` set (R @ [((fst pair, n), v)])"
  proof
    fix e assume e: "e \<in> set hits"
    with Cons.prems(1) h have "fst (fst e) \<noteq> fst pair" by force
    moreover from Cons.prems(2) e have "(fst (fst e), n) \<notin> fst ` set R" by simp
    ultimately show "(fst (fst e), n) \<notin> fst ` set (R @ [((fst pair, n), v)])" by auto
  qed
  have "filter (\<lambda>e. fst e \<notin> fst ` set hits) (remove K pair) =
      filter (\<lambda>e. fst e \<notin> fst ` set (h # hits)) K"
    unfolding remove_filter filter_filter by (rule filter_cong) (auto simp: h)
  with Cons.IH [OF d fresh, of "remove K pair"] show ?case
    by (simp add: h upd)
qed

lemma getLeft_filter: "getLeft K a = filter (\<lambda>e. fst (fst e) = a) K"
  by (simp add: getLeft_def case_prod_unfold)

lemma getRight_filter: "getRight K b = filter (\<lambda>e. snd (fst e) = b) K"
  by (simp add: getRight_def case_prod_unfold)

lemma distinct_rights_of_left:
  "distinct (map fst K) \<Longrightarrow> distinct (map (\<lambda>x. snd (fst x)) (filter (\<lambda>e. fst (fst e) = a) K))"
proof (induction K)
  case Nil
  then show ?case by simp
next
  case (Cons e K)
  have "snd (fst e) \<notin> (\<lambda>x. snd (fst x)) ` {x \<in> set K. fst (fst x) = a}" if "fst (fst e) = a"
  proof
    assume "snd (fst e) \<in> (\<lambda>x. snd (fst x)) ` {x \<in> set K. fst (fst x) = a}"
    then obtain x where "x \<in> set K" "fst (fst x) = a" "snd (fst x) = snd (fst e)" by auto
    with that have "fst x = fst e" by (simp add: prod_eq_iff)
    moreover from Cons.prems have "fst e \<notin> fst ` set K" by simp
    ultimately show False using \<open>x \<in> set K\<close> by (metis imageI)
  qed
  with Cons show ?case by auto
qed

lemma distinct_lefts_of_right:
  "distinct (map fst K) \<Longrightarrow> distinct (map (\<lambda>x. fst (fst x)) (filter (\<lambda>e. snd (fst e) = b) K))"
proof (induction K)
  case Nil
  then show ?case by simp
next
  case (Cons e K)
  have "fst (fst e) \<notin> (\<lambda>x. fst (fst x)) ` {x \<in> set K. snd (fst x) = b}" if "snd (fst e) = b"
  proof
    assume "fst (fst e) \<in> (\<lambda>x. fst (fst x)) ` {x \<in> set K. snd (fst x) = b}"
    then obtain x where "x \<in> set K" "snd (fst x) = b" "fst (fst x) = fst (fst e)" by auto
    with that have "fst x = fst e" by (simp add: prod_eq_iff)
    moreover from Cons.prems have "fst e \<notin> fst ` set K" by simp
    ultimately show False using \<open>x \<in> set K\<close> by (metis imageI)
  qed
  with Cons show ?case by auto
qed

lemma length_filter_map: "length (filter P (map f xs)) = length (filter (\<lambda>x. P (f x)) xs)"
  by (induction xs) auto

lemma distinct_store: "distinct (map fst K) \<Longrightarrow> distinct K"
  by (simp add: distinct_map)

lemma leftHits_inv:
  assumes "distinct (map fst K)" and "keyGlyph lefts n = Some a"
    and "\<forall>e \<in> set L. fst (fst e) \<noteq> n"
    and "collectLeftHits n (getLeft K a) K L = (K2, L2)"
  shows "distinct (map fst K2) \<and>
     of_bool (p \<in> set K2) + length (filter (from_left lefts p) L2) =
       of_bool (p \<in> set K) + length (filter (from_left lefts p) L) \<and>
     fst ` fst ` set L2 \<subseteq> insert n (fst ` fst ` set L)"
proof -
  let ?hits = "filter (\<lambda>e. fst (fst e) = a) K"
  have fresh: "\<forall>e \<in> set ?hits. (n, snd (fst e)) \<notin> fst ` set L"
    using assms(3) by force
  from collectLeftHits_closed [OF distinct_rights_of_left [OF assms(1)] fresh, of K] assms(4)
  have K2: "K2 = filter (\<lambda>e. fst (fst e) \<noteq> a) K" and
    L2: "L2 = L @ map (\<lambda>e. ((n, snd (fst e)), snd e)) ?hits"
    using filter_not_getLeft [of K a] by (simp_all add: getLeft_filter)
  have "filter (\<lambda>e. from_left lefts p ((n, snd (fst e)), snd e)) ?hits =
      filter (\<lambda>e. e = p) ?hits"
    by (rule filter_cong) (auto simp: from_left_def assms(2) prod_eq_iff)
  then have "length (filter (from_left lefts p) L2) =
      length (filter (from_left lefts p) L) + length (filter (\<lambda>e. e = p) ?hits)"
    by (simp add: L2 length_filter_map)
  also have "length (filter (\<lambda>e. e = p) ?hits) = of_bool (p \<in> set ?hits)"
    using assms(1) by (intro count_distinct) (simp add: distinct_store)
  finally have cnt: "length (filter (from_left lefts p) L2) =
      length (filter (from_left lefts p) L) + of_bool (p \<in> set ?hits)" .
  have "of_bool (p \<in> set K2) + of_bool (p \<in> set ?hits) = (of_bool (p \<in> set K) :: nat)"
    by (auto simp: K2)
  with cnt have "of_bool (p \<in> set K2) + length (filter (from_left lefts p) L2) =
       of_bool (p \<in> set K) + length (filter (from_left lefts p) L)"
    by simp
  moreover have "distinct (map fst K2)"
    using assms(1) by (simp add: K2 distinct_map_filter)
  moreover have "fst ` fst ` set L2 \<subseteq> insert n (fst ` fst ` set L)"
    by (auto simp: L2 image_iff)
  ultimately show ?thesis by blast
qed

lemma rightHits_inv:
  assumes "distinct (map fst K)" and "keyGlyph rights n = Some b"
    and "\<forall>e \<in> set R. snd (fst e) \<noteq> n"
    and "collectRightHits n (getRight K b) K R = (K2, R2)"
  shows "distinct (map fst K2) \<and>
     of_bool (p \<in> set K2) + length (filter (from_right rights p) R2) =
       of_bool (p \<in> set K) + length (filter (from_right rights p) R) \<and>
     snd ` fst ` set R2 \<subseteq> insert n (snd ` fst ` set R)"
proof -
  let ?hits = "filter (\<lambda>e. snd (fst e) = b) K"
  have fresh: "\<forall>e \<in> set ?hits. (fst (fst e), n) \<notin> fst ` set R"
    using assms(3) by force
  from collectRightHits_closed [OF distinct_lefts_of_right [OF assms(1)] fresh, of K] assms(4)
  have K2: "K2 = filter (\<lambda>e. snd (fst e) \<noteq> b) K" and
    R2: "R2 = R @ map (\<lambda>e. ((fst (fst e), n), snd e)) ?hits"
    using filter_not_getRight [of K b] by (simp_all add: getRight_filter)
  have "filter (\<lambda>e. from_right rights p ((fst (fst e), n), snd e)) ?hits =
      filter (\<lambda>e. e = p) ?hits"
    by (rule filter_cong) (auto simp: from_right_def assms(2) prod_eq_iff)
  then have "length (filter (from_right rights p) R2) =
      length (filter (from_right rights p) R) + length (filter (\<lambda>e. e = p) ?hits)"
    by (simp add: R2 length_filter_map)
  also have "length (filter (\<lambda>e. e = p) ?hits) = of_bool (p \<in> set ?hits)"
    using assms(1) by (intro count_distinct) (simp add: distinct_store)
  finally have cnt: "length (filter (from_right rights p) R2) =
      length (filter (from_right rights p) R) + of_bool (p \<in> set ?hits)" .
  have "of_bool (p \<in> set K2) + of_bool (p \<in> set ?hits) = (of_bool (p \<in> set K) :: nat)"
    by (auto simp: K2)
  with cnt have "of_bool (p \<in> set K2) + length (filter (from_right rights p) R2) =
       of_bool (p \<in> set K) + length (filter (from_right rights p) R)"
    by simp
  moreover have "distinct (map fst K2)"
    using assms(1) by (simp add: K2 distinct_map_filter)
  moreover have "snd ` fst ` set R2 \<subseteq> insert n (snd ` fst ` set R)"
    by (auto simp: R2 image_iff)
  ultimately show ?thesis by blast
qed

lemma collectLeftClasses_inv:
  assumes "distinct (map fst lefts)" and "distinct (map fst rights)"
  shows "distinct (map fst K) \<Longrightarrow> distinct (map fst ls) \<Longrightarrow> set ls \<subseteq> set lefts \<Longrightarrow>
     fst ` fst ` set L \<inter> fst ` set ls = {} \<Longrightarrow>
     fst ` fst ` set CP \<inter> fst ` set ls = {} \<Longrightarrow>
     collectLeftClasses ls rights K L CP = Inr (K', L', CP') \<Longrightarrow>
     distinct (map fst K') \<and>
     of_bool (p \<in> set K') + length (filter (from_left lefts p) L') +
         length (filter (from_classes lefts rights p) CP') =
       of_bool (p \<in> set K) + length (filter (from_left lefts p) L) +
         length (filter (from_classes lefts rights p) CP)"
proof (induction ls arbitrary: K L CP)
  case Nil
  then show ?case by simp
next
  case (Cons lc ls)
  obtain n c where lc: "lc = (n, c)" by (cases lc)
  from Cons.prems(6) lc obtain a as where c: "c = a # as"
    by (cases c) auto
  from Cons.prems(6) lc c obtain K1 CP1 K2 L2 where
    pairs: "collectClassPairs n a rights K CP = Inr (K1, CP1)" and
    hits: "collectLeftHits n (getLeft K1 a) K1 L = (K2, L2)" and
    rest: "collectLeftClasses ls rights K2 L2 CP1 = Inr (K', L', CP')"
    by (auto split: sum.splits prod.splits)
  have key: "keyGlyph lefts n = Some a"
    using assms(1) Cons.prems(3) lc c by (auto intro: keyGlyph_in)
  have n_new: "n \<notin> fst ` set ls"
    using Cons.prems(2) lc by simp
  have freshCP: "\<forall>m \<in> fst ` set rights. (n, m) \<notin> fst ` set CP"
    using Cons.prems(5) lc by force
  note a1 = collectClassPairs_inv [OF assms(2) key Cons.prems(1) assms(2) subset_refl
      freshCP pairs, of p]
  have freshL: "\<forall>e \<in> set L. fst (fst e) \<noteq> n"
    using Cons.prems(4) lc by force
  from a1 have dK1: "distinct (map fst K1)" by blast
  note b1 = leftHits_inv [OF dK1 key freshL hits, of p]
  from b1 have dK2: "distinct (map fst K2)" by blast
  have d: "distinct (map fst ls)" using Cons.prems(2) by simp
  have sub: "set ls \<subseteq> set lefts" using Cons.prems(3) by simp
  have L2: "fst ` fst ` set L2 \<inter> fst ` set ls = {}"
  proof -
    from b1 have "fst ` fst ` set L2 \<subseteq> insert n (fst ` fst ` set L)" by blast
    moreover from Cons.prems(4) have "fst ` fst ` set L \<inter> fst ` set ls = {}" by auto
    ultimately show ?thesis using n_new by blast
  qed
  have CP1: "fst ` fst ` set CP1 \<inter> fst ` set ls = {}"
  proof -
    from a1 have "fst ` fst ` set CP1 \<subseteq> insert n (fst ` fst ` set CP)" by blast
    moreover from Cons.prems(5) have "fst ` fst ` set CP \<inter> fst ` set ls = {}" by auto
    ultimately show ?thesis using n_new by blast
  qed
  note r = Cons.IH [OF dK2 d sub L2 CP1 rest]
  from a1 have a2: "of_bool (p \<in> set K1) + length (filter (from_classes lefts rights p) CP1) =
       of_bool (p \<in> set K) + length (filter (from_classes lefts rights p) CP)"
    by blast
  from b1 have b2: "of_bool (p \<in> set K2) + length (filter (from_left lefts p) L2) =
       of_bool (p \<in> set K1) + length (filter (from_left lefts p) L)"
    by blast
  from r have r1: "distinct (map fst K')" and
    r2: "of_bool (p \<in> set K') + length (filter (from_left lefts p) L') +
         length (filter (from_classes lefts rights p) CP') =
       of_bool (p \<in> set K2) + length (filter (from_left lefts p) L2) +
         length (filter (from_classes lefts rights p) CP1)"
    by blast+
  from a2 b2 r2 have "of_bool (p \<in> set K') + length (filter (from_left lefts p) L') +
         length (filter (from_classes lefts rights p) CP') =
       of_bool (p \<in> set K) + length (filter (from_left lefts p) L) +
         length (filter (from_classes lefts rights p) CP)"
    by linarith
  with r1 show ?case by blast
qed

lemma collectRightClasses_inv:
  assumes "distinct (map fst rights)"
  shows "distinct (map fst K) \<Longrightarrow> distinct (map fst rs) \<Longrightarrow> set rs \<subseteq> set rights \<Longrightarrow>
     snd ` fst ` set R \<inter> fst ` set rs = {} \<Longrightarrow>
     collectRightClasses rs K R = Inr (K', R') \<Longrightarrow>
     distinct (map fst K') \<and>
     of_bool (p \<in> set K') + length (filter (from_right rights p) R') =
       of_bool (p \<in> set K) + length (filter (from_right rights p) R)"
proof (induction rs arbitrary: K R)
  case Nil
  then show ?case by simp
next
  case (Cons rc rs)
  obtain n c where rc: "rc = (n, c)" by (cases rc)
  from Cons.prems(5) rc obtain b bs where c: "c = b # bs"
    by (cases c) auto
  from Cons.prems(5) rc c obtain K2 R2 where
    hits: "collectRightHits n (getRight K b) K R = (K2, R2)" and
    rest: "collectRightClasses rs K2 R2 = Inr (K', R')"
    by (auto split: prod.splits)
  have key: "keyGlyph rights n = Some b"
    using assms Cons.prems(3) rc c by (auto intro: keyGlyph_in)
  have n_new: "n \<notin> fst ` set rs"
    using Cons.prems(2) rc by simp
  have freshR: "\<forall>e \<in> set R. snd (fst e) \<noteq> n"
    using Cons.prems(4) rc by force
  note b1 = rightHits_inv [OF Cons.prems(1) key freshR hits, of p]
  from b1 have dK2: "distinct (map fst K2)" by blast
  have d: "distinct (map fst rs)" using Cons.prems(2) by simp
  have sub: "set rs \<subseteq> set rights" using Cons.prems(3) by simp
  have R2: "snd ` fst ` set R2 \<inter> fst ` set rs = {}"
  proof -
    from b1 have "snd ` fst ` set R2 \<subseteq> insert n (snd ` fst ` set R)" by blast
    moreover from Cons.prems(4) have "snd ` fst ` set R \<inter> fst ` set rs = {}" by auto
    ultimately show ?thesis using n_new by blast
  qed
  note r = Cons.IH [OF dK2 d sub R2 rest]
  from b1 have b2: "of_bool (p \<in> set K2) + length (filter (from_right rights p) R2) =
       of_bool (p \<in> set K) + length (filter (from_right rights p) R)"
    by blast
  from r have r1: "distinct (map fst K')" and
    r2: "of_bool (p \<in> set K') + length (filter (from_right rights p) R') =
       of_bool (p \<in> set K2) + length (filter (from_right rights p) R2)"
    by blast+
  from b2 r2 have "of_bool (p \<in> set K') + length (filter (from_right rights p) R') =
       of_bool (p \<in> set K) + length (filter (from_right rights p) R)"
    by linarith
  with r1 show ?case by blast
qed

lemma classify_once:
  assumes "distinct (map fst K)" and "distinct (map fst lefts)" and "distinct (map fst rights)"
    and "classify lefts rights K = Inr (G, L, R, CP)" and "p \<in> set K"
  shows "length (filter (\<lambda>e. e = p) G) + length (filter (from_left lefts p) L) +
     length (filter (from_right rights p) R) +
     length (filter (from_classes lefts rights p) CP) = 1"
proof -
  from assms(4) obtain K1 where
    l: "collectLeftClasses lefts rights K [] [] = Inr (K1, L, CP)" and
    r: "collectRightClasses rights K1 [] = Inr (G, R)"
    by (auto simp: classify_def split: sum.splits)
  from collectLeftClasses_inv [OF assms(2,3) assms(1,2) subset_refl _ _ l, of p]
  have dK1: "distinct (map fst K1)" and
    1: "of_bool (p \<in> set K1) + length (filter (from_left lefts p) L) +
         length (filter (from_classes lefts rights p) CP) = of_bool (p \<in> set K)"
    by simp_all
  from collectRightClasses_inv [OF assms(3) dK1 assms(3) subset_refl _ r, of p]
  have dG: "distinct (map fst G)" and
    2: "of_bool (p \<in> set G) + length (filter (from_right rights p) R) = of_bool (p \<in> set K1)"
    by simp_all
  have "length (filter (\<lambda>e. e = p) G) = of_bool (p \<in> set G)"
    using dG by (intro count_distinct) (simp add: distinct_store)
  with 1 2 assms(5) show ?thesis by simp
qed

lemma length_filter_sort:
  "length (filter P (sort (xs :: (pair \<times> int) list))) = length (filter P xs)"
  by (simp add: filter_sort)

lemma ex_dup_write_lines:
  "write_lines ex_dup =
     Inr ([], [Pos ''enum '' ''@_A_L'' ''x'' 2], [], [],
          ex_dup\<lparr>kerning := [], ruleCount := 1\<rparr>)"
  by code_simp

text \<open>
  C1, as the claim states it, fails: with a left class defined twice under one name, the
  rule of the second definition overwrites the rule of the first in the dictionary; the
  pair (g1, x) leaves the store, no lookup returned absent, and no rule line stands for
  it.
\<close>

theorem each_pair_once_counterexample:
  "write_lines ex_dup =
     Inr ([], [Pos ''enum '' ''@_A_L'' ''x'' 2], [], [],
          ex_dup\<lparr>kerning := [], ruleCount := 1\<rparr>) \<and>
   kerning ex_dup = [((''g1'', ''x''), 1), ((''g2'', ''x''), 2)] \<and>
   times_emitted (leftClasses ex_dup) (rightClasses ex_dup)
     [] [Pos ''enum '' ''@_A_L'' ''x'' 2] [] [] ((''g1'', ''x''), 1) = 0"
  using ex_dup_write_lines
  by (simp add: times_emitted_def from_left_def ex_dup_def parseFeatures_def init_def
      classDefinition_def startswith_def endswith_def)

text \<open>
  C1, amended. When the names of the left classes are pairwise distinct and the names of
  the right classes are pairwise distinct (and the store, a dictionary, has distinct
  keys), every pair of the store before \<^verbatim>\<open>write\<close> is represented by exactly one
  rule line of the output: no pair is dropped and no pair is emitted twice.
\<close>

theorem write_each_pair_once:
  assumes "distinct (map fst (kerning w))"
    and "distinct (map fst (leftClasses w))" and "distinct (map fst (rightClasses w))"
    and "write_lines w = Inr (g, l, r, cp, w')" and "p \<in> set (kerning w)"
  shows "times_emitted (leftClasses w) (rightClasses w) g l r cp p = 1"
proof -
  from assms(4) obtain K L R CP where
    c: "classify (leftClasses w) (rightClasses w) (kerning w) = Inr (K, L, R, CP)"
    by (rule write_lines_cases)
  from write_lines_Inr [OF c assms(4)] obtain c1 c2 c3 c4 where
    g: "writeKerning_lines (classSizes w) K False 0 = (g, c1)" and
    l: "writeKerning_lines (classSizes w) L True c1 = (l, c2)" and
    r: "writeKerning_lines (classSizes w) R True c2 = (r, c3)" and
    cp: "writeKerning_lines (classSizes w) CP False c3 = (cp, c4)"
    by blast
  show ?thesis
    using classify_once [OF assms(1-3) c assms(5)]
    by (simp add: times_emitted_def rule_pairs_lines [OF g] rule_pairs_lines [OF l]
        rule_pairs_lines [OF r] rule_pairs_lines [OF cp] length_filter_sort)
qed

theorem write_each_pair_once_witness:
  "times_emitted (leftClasses ex_spec) (rightClasses ex_spec)
     [Pos '''' ''g4'' ''g5'' 5] [] [Pos ''enum '' ''g2'' ''@_B_R'' 20]
     [Pos '''' ''@_A_L'' ''@_B_R'' 10] ((''g1'', ''g3''), 10) = 1"
proof -
  have ex: "ex_spec =
      \<lparr>kerning = [((''g1'', ''g3''), 10), ((''g2'', ''g3''), 20), ((''g4'', ''g5''), 5)],
       leftClasses = [(''@_A_L'', [''g1'', ''g2''])],
       rightClasses = [(''@_B_R'', [''g3''])],
       classSizes = [(''@_A_L'', 2), (''@_B_R'', 1)], ruleCount = 0\<rparr>"
    by (simp add: ex_spec_def parseFeatures_def init_def classDefinition_def startswith_def
        endswith_def)
  have 1: "distinct (map fst (kerning ex_spec))" by (simp add: ex)
  have 2: "distinct (map fst (leftClasses ex_spec))" by (simp add: ex)
  have 3: "distinct (map fst (rightClasses ex_spec))" by (simp add: ex)
  have 4: "((''g1'', ''g3''), 10) \<in> set (kerning ex_spec)" by (simp add: ex)
  from write_each_pair_once [OF 1 2 3 ex_spec_write_lines 4] show ?thesis .
qed

end
